theory Spec2Isabelle
  imports Complex_Main "HOL-Library.Signed_Division"
begin

section \<open>Subtitle entries and the subtitle store (subtitle.h)\<close>

text \<open>
  \<^verbatim>\<open>struct SubtitleEntry { double start; double end; std::string text; }\<close>.
  The two \<^verbatim>\<open>double\<close> fields are modelled as reals: finite doubles are ordered as the reals
  they denote, and the store only compares them. (\<open>end\<close> and \<open>text\<close> are reserved words of
  the theory language, hence the primes.)

  \<^verbatim>\<open>class SubtitleTrack\<close> holds \<^verbatim>\<open>std::vector<SubtitleEntry> entries_\<close> and a string
  \<^verbatim>\<open>empty_str_\<close> that no member function ever assigns: it is the empty string for the whole
  life of the object. The track is therefore modelled by the list of its entries.
\<close>

record SubtitleEntry =
  start :: real
  end' :: real
  text' :: string

type_synonym SubtitleTrack = "SubtitleEntry list"

section \<open>Text cleaning (subtitle.cpp, lines 37--85)\<close>

text \<open>
  The loop shared by \<^verbatim>\<open>strip_ass_tags\<close> and \<^verbatim>\<open>strip_html_tags\<close>: the two bodies differ only
  in the pair of bracket characters. \<open>depth\<close> is the loop's \<^verbatim>\<open>int depth\<close>, an unbounded
  integer here (it would take \<open>2^31\<close> nested opening brackets to leave the range of
  \<^verbatim>\<open>int\<close>); the characters appended to \<^verbatim>\<open>result\<close> are returned in order.
\<close>

fun strip_loop :: "char \<Rightarrow> char \<Rightarrow> int \<Rightarrow> string \<Rightarrow> string" where
  "strip_loop opn cls depth [] = []"
| "strip_loop opn cls depth (c # s) =
     (if c = opn then strip_loop opn cls (depth + 1) s
      else if c = cls then (if depth > 0 then strip_loop opn cls (depth - 1) s
                            else strip_loop opn cls depth s)
      else if depth = 0 then c # strip_loop opn cls depth s
      else strip_loop opn cls depth s)"

text \<open>
  One iteration's effect on \<^verbatim>\<open>depth\<close>, the value of \<^verbatim>\<open>depth\<close> after the loop has
  consumed a string, and the values \<^verbatim>\<open>depth\<close> has at the start of each iteration.
\<close>

definition depth_step :: "char \<Rightarrow> char \<Rightarrow> int \<Rightarrow> char \<Rightarrow> int" where
  "depth_step opn cls depth c =
     (if c = opn then depth + 1
      else if c = cls then (if depth > 0 then depth - 1 else depth)
      else depth)"

definition depth_after :: "char \<Rightarrow> char \<Rightarrow> int \<Rightarrow> string \<Rightarrow> int" where
  "depth_after opn cls depth s = foldl (depth_step opn cls) depth s"

fun depth_trace :: "char \<Rightarrow> char \<Rightarrow> int \<Rightarrow> string \<Rightarrow> int list" where
  "depth_trace opn cls depth [] = []"
| "depth_trace opn cls depth (c # s) =
     depth # depth_trace opn cls (depth_step opn cls depth c) s"

text \<open>
  A string \<open>b\<close> lies inside a block opened just before it when the depth, which is 1
  at its start, stays positive at every point of \<open>b\<close>.
\<close>

definition inside_block :: "char \<Rightarrow> char \<Rightarrow> string \<Rightarrow> bool" where
  "inside_block opn cls b =
     list_all (\<lambda>k. 0 < depth_after opn cls 1 (take k b)) [0..<Suc (length b)]"

definition strip_ass_tags :: "string \<Rightarrow> string" where
  "strip_ass_tags s = strip_loop (CHR ''{'') (CHR ''}'') 0 s"

definition strip_html_tags :: "string \<Rightarrow> string" where
  "strip_html_tags s = strip_loop (CHR ''<'') (CHR ''>'') 0 s"

text \<open>
  The escape loop of \<^verbatim>\<open>clean_text\<close>: a backslash followed by \<open>N\<close> or \<open>n\<close> becomes one
  line feed and both characters are consumed; any other character is copied.
\<close>

fun unescape :: "string \<Rightarrow> string" where
  "unescape [] = []"
| "unescape [c] = [c]"
| "unescape (c # d # s) =
     (if c = CHR 0x5C \<and> (d = CHR ''N'' \<or> d = CHR ''n'')
      then CHR 0x0A # unescape s
      else c # unescape (d # s))"

text \<open>
  \<^verbatim>\<open>std::string::find_first_not_of\<close>, \<^verbatim>\<open>find_last_not_of\<close> (\<open>None\<close> is \<^verbatim>\<open>npos\<close>) and
  \<^verbatim>\<open>substr(pos, n)\<close> for \<open>pos\<close> within the string.
\<close>

fun find_first_not_of :: "string \<Rightarrow> string \<Rightarrow> nat option" where
  "find_first_not_of cs [] = None"
| "find_first_not_of cs (c # s) =
     (if c \<in> set cs then map_option Suc (find_first_not_of cs s) else Some 0)"

definition find_last_not_of :: "string \<Rightarrow> string \<Rightarrow> nat option" where
  "find_last_not_of cs s =
     map_option (\<lambda>k. length s - 1 - k) (find_first_not_of cs (rev s))"

definition substr :: "string \<Rightarrow> nat \<Rightarrow> nat \<Rightarrow> string" where
  "substr s pos n = take n (drop pos s)"

text \<open>
  The trimming idiom used three times in the file:
  \<^verbatim>\<open>f = s.find_first_not_of(cs); l = s.find_last_not_of(cs);
    (f == npos) ? "" : s.substr(f, l - f + 1)\<close>.
  When \<open>f\<close> is found, \<open>l\<close> is found too and \<open>f \<le> l\<close> (lemma \<open>find_first_le_last\<close>
  below), so the unsigned subtraction never wraps; the branch for a missing \<open>l\<close> is the
  wrapped value \<^verbatim>\<open>npos - f + 1\<close> of a 64-bit \<^verbatim>\<open>size_t\<close>.
\<close>

definition trim_chars :: "string \<Rightarrow> string \<Rightarrow> string" where
  "trim_chars cs s =
     (case find_first_not_of cs s of
        None \<Rightarrow> []
      | Some f \<Rightarrow>
          (case find_last_not_of cs s of
             Some l \<Rightarrow> substr s f (l - f + 1)
           | None \<Rightarrow> substr s f ((2 ^ 64 - f) mod 2 ^ 64)))"

definition ws_clean :: string where
  "ws_clean = [CHR '' '', CHR 0x09, CHR 0x0D, CHR 0x0A]"

definition ws_blank :: string where
  "ws_blank = [CHR '' '', CHR 0x09]"

definition clean_text :: "string \<Rightarrow> string" where
  "clean_text s = trim_chars ws_clean (unescape (strip_ass_tags (strip_html_tags s)))"

text \<open>
  A string without an escape pair, that is without a backslash directly followed by
  \<open>N\<close> or \<open>n\<close>; used to describe the outputs of the escape loop.
\<close>

fun esc_free :: "string \<Rightarrow> bool" where
  "esc_free [] = True"
| "esc_free [c] = True"
| "esc_free (c # d # s) =
     (\<not> (c = CHR 0x5C \<and> (d = CHR ''N'' \<or> d = CHR ''n'')) \<and> esc_free (d # s))"

section \<open>Timecode parsing (subtitle.cpp, lines 19--30)\<close>

text \<open>
  \<^verbatim>\<open>sscanf\<close> with a format made of \<^verbatim>\<open>%d\<close> conversions separated by single literal
  characters. A \<^verbatim>\<open>%d\<close> skips white space (\<^verbatim>\<open>isspace\<close> of the C locale), takes an optional
  sign and at least one decimal digit; the conversion fails when no digit follows. The
  scan stops at the first failed conversion or literal mismatch, and the variables of the
  conversions not reached keep their initial value. The values are unbounded integers
  here: a digit string beyond the range of \<^verbatim>\<open>int\<close> has no defined result in C.
  \<^verbatim>\<open>c_str\<close> is the string as \<^verbatim>\<open>sscanf\<close> sees it, ending at the first NUL.
\<close>

definition isspace :: "char \<Rightarrow> bool" where
  "isspace c = (c \<in> set [CHR '' '', CHR 0x09, CHR 0x0A, CHR 0x0B, CHR 0x0C, CHR 0x0D])"

definition isdigit :: "char \<Rightarrow> bool" where
  "isdigit c = (c \<in> set ''0123456789'')"

definition digit_val :: "char \<Rightarrow> int" where
  "digit_val c = int (of_char c) - 48"

definition c_str :: "string \<Rightarrow> string" where
  "c_str s = takeWhile (\<lambda>c. c \<noteq> CHR 0x00) s"

definition scan_int :: "string \<Rightarrow> (int \<times> string) option" where
  "scan_int s =
     (let s1 = dropWhile isspace s;
          neg = (s1 \<noteq> [] \<and> hd s1 = CHR ''-'');
          s2 = (if s1 \<noteq> [] \<and> (hd s1 = CHR ''-'' \<or> hd s1 = CHR ''+'') then tl s1 else s1);
          ds = takeWhile isdigit s2;
          v = foldl (\<lambda>a c. 10 * a + digit_val c) 0 ds
      in if ds = [] then None
         else Some (if neg then - v else v, dropWhile isdigit s2))"

fun sscanf_ints :: "string \<Rightarrow> string \<Rightarrow> int list" where
  "sscanf_ints [] s = (case scan_int s of None \<Rightarrow> [] | Some (v, rest) \<Rightarrow> [v])"
| "sscanf_ints (sep # seps) s =
     (case scan_int s of
        None \<Rightarrow> []
      | Some (v, rest) \<Rightarrow>
          v # (case rest of
                 [] \<Rightarrow> []
               | r # rest' \<Rightarrow> if r = sep then sscanf_ints seps rest' else []))"

definition arg_or_0 :: "int list \<Rightarrow> nat \<Rightarrow> int" where
  "arg_or_0 vs i = (if i < length vs then vs ! i else 0)"

definition parse_srt_time :: "string \<Rightarrow> real" where
  "parse_srt_time ts =
     (let vs = sscanf_ints [CHR '':'', CHR '':'', CHR '',''] (c_str ts);
          h = arg_or_0 vs 0; m = arg_or_0 vs 1; s = arg_or_0 vs 2; ms = arg_or_0 vs 3
      in real_of_int h * 3600 + real_of_int m * 60 + real_of_int s + real_of_int ms / 1000)"

definition parse_ass_time :: "string \<Rightarrow> real" where
  "parse_ass_time ts =
     (let vs = sscanf_ints [CHR '':'', CHR '':'', CHR ''.''] (c_str ts);
          h = arg_or_0 vs 0; m = arg_or_0 vs 1; s = arg_or_0 vs 2; cs = arg_or_0 vs 3
      in real_of_int h * 3600 + real_of_int m * 60 + real_of_int s + real_of_int cs / 100)"

section \<open>String and stream helpers of the loaders\<close>

text \<open>
  Repeated \<^verbatim>\<open>std::getline(stream, line, delim)\<close> until it fails: a line ends at the
  delimiter, which is consumed; at the end of the stream the characters read so far are
  one last line, and a call that reads no character at all fails.
\<close>

fun getlines_acc :: "char \<Rightarrow> string \<Rightarrow> string \<Rightarrow> string list" where
  "getlines_acc d acc [] = (if acc = [] then [] else [acc])"
| "getlines_acc d acc (c # s) =
     (if c = d then acc # getlines_acc d [] s else getlines_acc d (acc @ [c]) s)"

definition getlines :: "char \<Rightarrow> string \<Rightarrow> string list" where
  "getlines d s = getlines_acc d [] s"

text \<open>
  \<^verbatim>\<open>s.find(pat)\<close>, \<^verbatim>\<open>s.find(c)\<close>, \<^verbatim>\<open>s.find_first_of(cs)\<close> from the start of the string
  (\<open>None\<close> is \<^verbatim>\<open>npos\<close>), and \<^verbatim>\<open>s.rfind(pat, 0) == 0\<close>, which tests for a prefix.
\<close>

definition starts_with :: "string \<Rightarrow> string \<Rightarrow> bool" where
  "starts_with pat s = (take (length pat) s = pat)"

fun find_str :: "string \<Rightarrow> string \<Rightarrow> nat option" where
  "find_str pat [] = (if pat = [] then Some 0 else None)"
| "find_str pat (c # s) =
     (if starts_with pat (c # s) then Some 0 else map_option Suc (find_str pat s))"

fun find_char :: "char \<Rightarrow> string \<Rightarrow> nat option" where
  "find_char x [] = None"
| "find_char x (c # s) = (if c = x then Some 0 else map_option Suc (find_char x s))"

fun find_first_of :: "string \<Rightarrow> string \<Rightarrow> nat option" where
  "find_first_of cs [] = None"
| "find_first_of cs (c # s) =
     (if c \<in> set cs then Some 0 else map_option Suc (find_first_of cs s))"

text \<open>The lambda \<^verbatim>\<open>trim_cr\<close> of both loaders: one trailing carriage return is removed.\<close>

definition trim_cr :: "string \<Rightarrow> string" where
  "trim_cr line = (if line \<noteq> [] \<and> last line = CHR 0x0D then butlast line else line)"

section \<open>The store: live insertion, sorting and lookup (subtitle.cpp, lines 286--325)\<close>

text \<open>
  \<^verbatim>\<open>std::upper_bound\<close> and \<^verbatim>\<open>std::lower_bound\<close> are the standard library's binary
  searches; they are written here as the usual halving loop over \<open>[first, first + len)\<close>,
  with the comparators of the two call sites: \<^verbatim>\<open>t < e.start\<close> in \<^verbatim>\<open>get_active\<close> and
  \<^verbatim>\<open>a.start < b.start\<close> in \<^verbatim>\<open>add_ffmpeg_entry\<close>. The results are indices into the vector.
  Every index read lies below \<open>first + len\<close>, so within the vector for the calls made.
\<close>

function upper_bound_loop :: "SubtitleEntry list \<Rightarrow> real \<Rightarrow> nat \<Rightarrow> nat \<Rightarrow> nat" where
  "upper_bound_loop es t first len =
     (if len = 0 then first
      else if t < start (es ! (first + len div 2))
           then upper_bound_loop es t first (len div 2)
           else upper_bound_loop es t (first + len div 2 + 1) (len - len div 2 - 1))"
  by pat_completeness auto
termination
  by (relation "measure (\<lambda>(es, t, first, len). len)") auto

function lower_bound_loop :: "SubtitleEntry list \<Rightarrow> real \<Rightarrow> nat \<Rightarrow> nat \<Rightarrow> nat" where
  "lower_bound_loop es s first len =
     (if len = 0 then first
      else if start (es ! (first + len div 2)) < s
           then lower_bound_loop es s (first + len div 2 + 1) (len - len div 2 - 1)
           else lower_bound_loop es s first (len div 2))"
  by pat_completeness auto
termination
  by (relation "measure (\<lambda>(es, s, first, len). len)") auto

definition upper_bound :: "SubtitleEntry list \<Rightarrow> real \<Rightarrow> nat" where
  "upper_bound es t = upper_bound_loop es t 0 (length es)"

definition lower_bound :: "SubtitleEntry list \<Rightarrow> SubtitleEntry \<Rightarrow> nat" where
  "lower_bound es entry = lower_bound_loop es (start entry) 0 (length es)"

text \<open>\<^verbatim>\<open>entries_.insert(it, entry)\<close> for an iterator at index \<open>it\<close>.\<close>

definition insert_at :: "nat \<Rightarrow> 'a \<Rightarrow> 'a list \<Rightarrow> 'a list" where
  "insert_at it x xs = take it xs @ x # drop it xs"

definition add_ffmpeg_entry ::
  "real \<Rightarrow> real \<Rightarrow> string \<Rightarrow> SubtitleTrack \<Rightarrow> SubtitleTrack"
where
  "add_ffmpeg_entry start_sec end_sec raw_text entries =
     (let txt = clean_text raw_text in
      if txt = [] then entries
      else (let entry = \<lparr>start = start_sec, end' = end_sec, text' = txt\<rparr>;
                it = lower_bound entries entry
            in insert_at it entry entries))"

text \<open>
  \<^verbatim>\<open>sort_entries\<close> calls \<^verbatim>\<open>std::sort\<close> with the comparator \<^verbatim>\<open>a.start < b.start\<close>. The
  standard leaves the relative order of entries with equal \<open>start\<close> open; the model keeps
  their order, as the insertion sort does that \<^verbatim>\<open>std::sort\<close> runs on vectors of at most 16
  entries. On longer vectors entries with equal \<open>start\<close> may come out in another order;
  nothing proved below depends on the order among them.
\<close>

definition sort_entries :: "SubtitleTrack \<Rightarrow> SubtitleTrack" where
  "sort_entries entries = sort_key start entries"

definition clear :: "SubtitleTrack \<Rightarrow> SubtitleTrack" where
  "clear entries = []"

definition get_active :: "SubtitleTrack \<Rightarrow> real \<Rightarrow> string" where
  "get_active entries time_sec =
     (if entries = [] then []
      else (let it = upper_bound entries time_sec in
            if it \<noteq> 0 then
              (let e = entries ! (it - 1) in
               if start e \<le> time_sec \<and> time_sec < end' e then text' e else [])
            else []))"

text \<open>The store's invariant: entries ordered by \<open>start\<close>, ascending.\<close>

definition sorted_by_start :: "SubtitleTrack \<Rightarrow> bool" where
  "sorted_by_start es = sorted (map start es)"

section \<open>The SRT loader (subtitle.cpp, lines 91--166)\<close>

text \<open>
  The loader's local variables \<^verbatim>\<open>cur\<close>, \<^verbatim>\<open>text_buf\<close>, \<^verbatim>\<open>in_entry\<close> together with the
  vector being filled. \<^verbatim>\<open>SubtitleEntry cur{}\<close> and \<^verbatim>\<open>cur = {}\<close> give the zero entry.
\<close>

record srt_state =
  entries :: "SubtitleEntry list"
  cur :: SubtitleEntry
  text_buf :: string
  in_entry :: bool

definition zero_entry :: SubtitleEntry where
  "zero_entry = \<lparr>start = 0, end' = 0, text' = []\<rparr>"

definition srt_init :: srt_state where
  "srt_init = \<lparr>entries = [], cur = zero_entry, text_buf = [], in_entry = False\<rparr>"

text \<open>
  The lambda \<^verbatim>\<open>flush\<close>: \<^verbatim>\<open>cur.text\<close> receives the cleaned buffer, and \<^verbatim>\<open>cur\<close> is pushed
  only when that text is not empty.
\<close>

definition flush :: "srt_state \<Rightarrow> srt_state" where
  "flush st =
     (let st1 =
        (if in_entry st \<and> text_buf st \<noteq> [] then
           (let c = (cur st)\<lparr>text' := clean_text (text_buf st)\<rparr> in
            if text' c \<noteq> [] then st\<lparr>cur := c, entries := entries st @ [c]\<rparr>
            else st\<lparr>cur := c\<rparr>)
         else st)
      in st1\<lparr>text_buf := [], in_entry := False\<rparr>)"

definition strip_bom :: "string \<Rightarrow> string" where
  "strip_bom line =
     (if length line \<ge> 3 \<and> line ! 0 = CHR 0xEF \<and> line ! 1 = CHR 0xBB \<and> line ! 2 = CHR 0xBF
      then drop 3 line else line)"

text \<open>
  The end field of a time-range line: \<^verbatim>\<open>eol = e_str.find_first_of(" \t\r\n",
  e_str.find_first_not_of(" \t"))\<close>, a search that starts at \<^verbatim>\<open>npos\<close> and so finds nothing
  when the field is blank, followed by \<^verbatim>\<open>e_str.substr(0, eol)\<close> when \<open>eol\<close> is found.
\<close>

definition cut_end_field :: "string \<Rightarrow> string" where
  "cut_end_field e_str =
     (case find_first_not_of ws_blank e_str of
        None \<Rightarrow> e_str
      | Some p \<Rightarrow>
          (case find_first_of ws_clean (drop p e_str) of
             None \<Rightarrow> e_str
           | Some k \<Rightarrow> substr e_str 0 (p + k)))"

text \<open>The body of the \<^verbatim>\<open>while (std::getline(ifs, line))\<close> loop, for one line.\<close>

definition srt_line :: "srt_state \<Rightarrow> string \<Rightarrow> srt_state" where
  "srt_line st raw_line =
     (let line = trim_cr (strip_bom raw_line) in
      if line = [] then flush st
      else if list_all isdigit line then (flush st)\<lparr>in_entry := True, cur := zero_entry\<rparr>
      else
        (case find_str ''-->'' line of
           Some arrow \<Rightarrow>
             (let s_str = trim_chars ws_blank (substr line 0 arrow);
                  e_str = trim_chars ws_blank (cut_end_field (drop (arrow + 3) line))
              in st\<lparr>cur := (cur st)\<lparr>start := parse_srt_time s_str,
                                      end' := parse_srt_time e_str\<rparr>\<rparr>)
         | None \<Rightarrow>
             if in_entry st
             then st\<lparr>text_buf :=
                      (if text_buf st \<noteq> [] then text_buf st @ [CHR 0x0A] else []) @ line\<rparr>
             else st))"

text \<open>
  \<^verbatim>\<open>load_srt\<close> on the content of the file, \<open>None\<close> when the file cannot be opened: the
  call then returns \<^verbatim>\<open>false\<close> before it touches the store. The result is the returned flag
  and the store after the call.
\<close>

definition load_srt :: "string option \<Rightarrow> SubtitleTrack \<Rightarrow> bool \<times> SubtitleTrack" where
  "load_srt file old_entries =
     (case file of
        None \<Rightarrow> (False, old_entries)
      | Some content \<Rightarrow>
          (let st = flush (foldl srt_line srt_init (getlines (CHR 0x0A) content))
           in (entries st \<noteq> [], entries st)))"

section \<open>The ASS/SSA loader (subtitle.cpp, lines 172--261)\<close>

record ass_state =
  ass_entries :: "SubtitleEntry list"
  in_events :: bool
  text_col_idx :: nat

definition ass_init :: ass_state where
  "ass_init = \<lparr>ass_entries = [], in_events = False, text_col_idx = 9\<rparr>"

text \<open>
  The field loop of a \<^verbatim>\<open>Format:\<close> line. A field is trimmed only when it has a non-blank
  character; the index of the first field equal to \<^verbatim>\<open>Text\<close> is returned, 9 if there is none.
\<close>

definition trim_field :: "string \<Rightarrow> string" where
  "trim_field field =
     (if find_first_not_of ws_blank field = None then field else trim_chars ws_blank field)"

fun format_loop :: "nat \<Rightarrow> string list \<Rightarrow> nat" where
  "format_loop idx [] = 9"
| "format_loop idx (field # rest) =
     (if trim_field field = ''Text'' then idx else format_loop (idx + 1) rest)"

text \<open>
  The splitting loop of a \<^verbatim>\<open>Dialogue:\<close> line, \<^verbatim>\<open>for (i = 0; i <= text_col_idx; ++i)\<close>. The
  first argument is \<^verbatim>\<open>text_col_idx - i\<close>, the second is \<^verbatim>\<open>data.substr(pos)\<close>: at
  \<^verbatim>\<open>i == text_col_idx\<close> the whole rest is pushed; before that the rest is cut at its first
  comma, and the loop ends early with the rest as last field when there is none.
\<close>

fun split_fields :: "nat \<Rightarrow> string \<Rightarrow> string list" where
  "split_fields 0 rest = [rest]"
| "split_fields (Suc n) rest =
     (case find_char (CHR '','') rest of
        None \<Rightarrow> [rest]
      | Some comma \<Rightarrow> substr rest 0 comma # split_fields n (drop (comma + 1) rest))"

text \<open>
  \<^verbatim>\<open>trim_f(fields[1]); trim_f(fields[2]);\<close> trims the two time columns in place, so a
  later read of the vector sees the trimmed strings.
\<close>

definition trim_time_fields :: "string list \<Rightarrow> string list" where
  "trim_time_fields flds =
     (let flds1 = flds[1 := trim_chars ws_blank (flds ! 1)]
      in flds1[2 := trim_chars ws_blank (flds1 ! 2)])"

text \<open>The handling of one \<^verbatim>\<open>Dialogue:\<close> line, from \<^verbatim>\<open>data = line.substr(9)\<close> on.\<close>

definition ass_dialogue :: "ass_state \<Rightarrow> string \<Rightarrow> ass_state" where
  "ass_dialogue st data =
     (let flds = split_fields (text_col_idx st) data in
      if length flds < text_col_idx st + 1 then st
      else if length flds < 3 then st
      else
        (let flds' = trim_time_fields flds;
             start_sec = parse_ass_time (flds' ! 1);
             end_sec = parse_ass_time (flds' ! 2);
             txt = clean_text (flds' ! text_col_idx st)
         in if txt \<noteq> []
            then st\<lparr>ass_entries := ass_entries st @
                      [\<lparr>start = start_sec, end' = end_sec, text' = txt\<rparr>]\<rparr>
            else st))"

definition ass_line :: "ass_state \<Rightarrow> string \<Rightarrow> ass_state" where
  "ass_line st raw_line =
     (let line = trim_cr raw_line in
      if line = [] \<or> hd line = CHR '';'' \<or> hd line = CHR ''!'' then st
      else if hd line = CHR ''[''
        then st\<lparr>in_events := (find_str ''[Events]'' line \<noteq> None)\<rparr>
      else if \<not> in_events st then st
      else if starts_with ''Format:'' line
        then st\<lparr>text_col_idx := format_loop 0 (getlines (CHR '','') (drop 7 line))\<rparr>
      else if \<not> starts_with ''Dialogue:'' line then st
      else ass_dialogue st (drop 9 line))"

definition load_ass :: "string option \<Rightarrow> SubtitleTrack \<Rightarrow> bool \<times> SubtitleTrack" where
  "load_ass file old_entries =
     (case file of
        None \<Rightarrow> (False, old_entries)
      | Some content \<Rightarrow>
          (let st = foldl ass_line ass_init (getlines (CHR 0x0A) content);
               sorted_entries = sort_entries (ass_entries st)
           in (sorted_entries \<noteq> [], sorted_entries)))"

text \<open>
  \<^verbatim>\<open>load_file\<close> (lines 267--280): the sibling files are given by their extension, \<open>None\<close>
  for a file that does not exist or cannot be opened (in both cases the store is left as
  it is and the next extension is tried).
\<close>

fun load_file_loop ::
  "(string \<Rightarrow> string option) \<Rightarrow> string list \<Rightarrow> SubtitleTrack \<Rightarrow> bool \<times> SubtitleTrack"
where
  "load_file_loop files [] tr = (False, tr)"
| "load_file_loop files (ext # exts) tr =
     (case files ext of
        None \<Rightarrow> load_file_loop files exts tr
      | Some content \<Rightarrow>
          (let r = (if ext = ''.srt'' then load_srt (Some content) tr
                    else load_ass (Some content) tr)
           in if fst r then (True, snd r) else load_file_loop files exts (snd r)))"

definition load_file :: "(string \<Rightarrow> string option) \<Rightarrow> SubtitleTrack \<Rightarrow> bool \<times> SubtitleTrack" where
  "load_file files tr = load_file_loop files [''.srt'', ''.ass'', ''.ssa''] tr"

section \<open>VideoPlayer: subtitle source and seek (media.cpp, lines 47--67 and 173--195)\<close>

text \<open>
  The members of \<^verbatim>\<open>VideoPlayer\<close> that the subtitle path and the seek branch of
  \<^verbatim>\<open>decode_loop\<close> read or write (the names without their trailing underscore), and the
  loop's local \<^verbatim>\<open>start_ns\<close>. The decoder, demultiplexer and audio calls of the seek branch
  act on FFmpeg and SDL objects only.
\<close>

record VideoPlayer =
  subtitle_track :: SubtitleTrack
  use_embedded_sub :: bool
  subtitle_stream_idx :: int
  seek_target :: real
  cur_pts :: real
  ended :: bool
  start_ns :: int

text \<open>
  The subtitle block of the constructor: \<open>files\<close> are the sibling subtitle files of the
  media path, \<open>best_stream\<close> is what \<^verbatim>\<open>av_find_best_stream\<close> returns for the subtitle type.
\<close>

definition init_subtitles ::
  "(string \<Rightarrow> string option) \<Rightarrow> int \<Rightarrow> VideoPlayer \<Rightarrow> VideoPlayer"
where
  "init_subtitles files best_stream p =
     (let r = load_file files (subtitle_track p) in
      if fst r then p\<lparr>subtitle_track := snd r, use_embedded_sub := False\<rparr>
      else p\<lparr>subtitle_track := snd r, subtitle_stream_idx := best_stream,
              use_embedded_sub := (if best_stream \<ge> 0 then True else use_embedded_sub p)\<rparr>)"

text \<open>\<^verbatim>\<open>VideoPlayer::seek\<close> and \<^verbatim>\<open>get_subtitle_text\<close> (media.h line 140, media.cpp line 130).\<close>

definition seek :: "real \<Rightarrow> VideoPlayer \<Rightarrow> VideoPlayer" where
  "seek secs p = p\<lparr>seek_target := max 0 secs, ended := False\<rparr>"

definition get_subtitle_text :: "VideoPlayer \<Rightarrow> string" where
  "get_subtitle_text p = get_active (subtitle_track p) (cur_pts p)"

text \<open>
  The seek branch at the top of an iteration of \<^verbatim>\<open>decode_loop\<close>; \<open>now_ns\<close> is the value
  of \<^verbatim>\<open>SDL_GetTicksNS()\<close>, the clock arithmetic is that of \<^verbatim>\<open>Uint64\<close>.
\<close>

definition decode_loop_seek :: "int \<Rightarrow> VideoPlayer \<Rightarrow> VideoPlayer" where
  "decode_loop_seek now_ns p =
     (let seek_val = seek_target p in
      if seek_val \<ge> 0 then
        p\<lparr>seek_target := - 1,
          subtitle_track :=
            (if use_embedded_sub p then clear (subtitle_track p) else subtitle_track p),
          start_ns := (now_ns - \<lfloor>seek_val * 1000000000\<rfloor>) mod 2 ^ 64,
          cur_pts := seek_val\<rparr>
      else p)"

section \<open>MediaPlayer::get_progress (media.h, lines 112--115)\<close>

text \<open>
  The values of a \<^verbatim>\<open>double\<close> or \<^verbatim>\<open>float\<close> as far as \<^verbatim>\<open>get_progress\<close> can tell them apart:
  a finite number, one of the two infinities, or NaN (the two zeros are one value here;
  they compare equal). \<open>double_less\<close> and \<open>double_le\<close> are the comparisons \<^verbatim>\<open><\<close> and
  \<^verbatim>\<open><=\<close> of C++, both false as soon as one operand is NaN.
\<close>

datatype double = Finite real | PosInf | NegInf | NaN

fun double_less :: "double \<Rightarrow> double \<Rightarrow> bool" where
  "double_less NaN b = False"
| "double_less a NaN = False"
| "double_less (Finite x) (Finite y) = (x < y)"
| "double_less (Finite x) PosInf = True"
| "double_less (Finite x) NegInf = False"
| "double_less PosInf b = False"
| "double_less NegInf (Finite y) = True"
| "double_less NegInf PosInf = True"
| "double_less NegInf NegInf = False"

fun double_le :: "double \<Rightarrow> double \<Rightarrow> bool" where
  "double_le NaN b = False"
| "double_le a NaN = False"
| "double_le (Finite x) (Finite y) = (x \<le> y)"
| "double_le (Finite x) PosInf = True"
| "double_le (Finite x) NegInf = False"
| "double_le PosInf PosInf = True"
| "double_le PosInf b = False"
| "double_le NegInf b = True"

text \<open>
  The division \<^verbatim>\<open>get_position() / len\<close> as a checked operation: \<open>None\<close> marks a division
  by zero, every other case has its IEEE result, where \<open>rnd\<close> rounds the exact quotient of
  two finite numbers to a \<^verbatim>\<open>double\<close>. \<open>to_float\<close> is \<^verbatim>\<open>static_cast<float>\<close>, with \<open>rnd32\<close> the
  rounding of a finite number to a \<^verbatim>\<open>float\<close>; infinities and NaN are kept.
\<close>

fun checked_div :: "(real \<Rightarrow> double) \<Rightarrow> double \<Rightarrow> double \<Rightarrow> double option" where
  "checked_div rnd a (Finite y) =
     (if y = 0 then None
      else (case a of
              Finite x \<Rightarrow> Some (rnd (x / y))
            | PosInf \<Rightarrow> Some (if 0 < y then PosInf else NegInf)
            | NegInf \<Rightarrow> Some (if 0 < y then NegInf else PosInf)
            | NaN \<Rightarrow> Some NaN))"
| "checked_div rnd a PosInf =
     (case a of Finite x \<Rightarrow> Some (Finite 0) | PosInf \<Rightarrow> Some NaN | NegInf \<Rightarrow> Some NaN
      | NaN \<Rightarrow> Some NaN)"
| "checked_div rnd a NegInf =
     (case a of Finite x \<Rightarrow> Some (Finite 0) | PosInf \<Rightarrow> Some NaN | NegInf \<Rightarrow> Some NaN
      | NaN \<Rightarrow> Some NaN)"
| "checked_div rnd a NaN = Some NaN"

fun to_float :: "(real \<Rightarrow> double) \<Rightarrow> double \<Rightarrow> double" where
  "to_float rnd32 (Finite x) = rnd32 x"
| "to_float rnd32 PosInf = PosInf"
| "to_float rnd32 NegInf = NegInf"
| "to_float rnd32 NaN = NaN"

text \<open>
  \<^verbatim>\<open>get_length\<close> and \<^verbatim>\<open>get_position\<close> are virtual: their values are the parameters \<open>len\<close>
  and \<open>position\<close>. The body is
  \<^verbatim>\<open>(len > 0.0) ? static_cast<float>(get_position() / len) : 0.0f\<close>.
\<close>

definition get_progress ::
  "(real \<Rightarrow> double) \<Rightarrow> (real \<Rightarrow> double) \<Rightarrow> double \<Rightarrow> double \<Rightarrow> double option"
where
  "get_progress rnd rnd32 position len =
     (if double_less (Finite 0) len
      then map_option (to_float rnd32) (checked_div rnd position len)
      else Some (Finite 0))"

section \<open>ImagePlayer::seek_frames (media.cpp, lines 415--429)\<close>

text \<open>
  \<^verbatim>\<open>int\<close> is 32 bits wide: \<open>int32\<close> is the value an arithmetic result has after
  two's-complement wrap-around, and \<open>smod\<close> is the remainder of C++, which truncates
  towards zero. \<open>delays\<close> is \<^verbatim>\<open>current_anim_->delays\<close>, \<open>None\<close> for a null \<^verbatim>\<open>current_anim_\<close>;
  the textures of \<^verbatim>\<open>anim_frames_\<close> are numbered handles.
\<close>

definition int32 :: "int \<Rightarrow> int" where
  "int32 x = (x + 2 ^ 31) mod 2 ^ 32 - 2 ^ 31"

record ImagePlayer =
  is_animated :: bool
  anim_frames :: "nat list"
  anim_frame_idx :: int
  anim_elapsed_ms :: int
  delays :: "int list option"
  last_frame_time :: int

definition frame_delay :: "int list option \<Rightarrow> nat \<Rightarrow> int" where
  "frame_delay ds i =
     (case ds of
        None \<Rightarrow> 100
      | Some d \<Rightarrow> if d ! i > 0 then d ! i else 100)"

definition seek_frames :: "int \<Rightarrow> int \<Rightarrow> ImagePlayer \<Rightarrow> ImagePlayer" where
  "seek_frames now delta ip =
     (if \<not> is_animated ip \<or> anim_frames ip = [] then ip
      else
        (let count = int32 (int (length (anim_frames ip)));
             idx = (int32 ((int32 (anim_frame_idx ip + delta) smod count) + count))
                     smod count;
             acc = foldl (\<lambda>a i. int32 (a + frame_delay (delays ip) i)) 0 [0..<nat idx]
         in ip\<lparr>anim_frame_idx := idx, anim_elapsed_ms := acc, last_frame_time := now\<rparr>))"

text \<open>
  The contract of a bracket stripper \<open>f\<close> for the bracket pair \<open>opn\<close>, \<open>cls\<close>, at an input
  \<open>s\<close> and at strings \<open>u\<close>, \<open>b\<close>, \<open>v\<close>:
  \<^item> the output is made of the characters of \<open>s\<close>, in order, that are read at depth zero and
    are not brackets;
  \<^item> the depth is never negative;
  \<^item> a closing bracket met at depth zero (unmatched) is dropped and changes nothing else;
  \<^item> after an opening bracket that is never closed, everything is dropped;
  \<^item> a block from an opening bracket at depth zero to its matching closing bracket is
    removed as a whole, brackets included.
\<close>

definition bracket_contract ::
  "(string \<Rightarrow> string) \<Rightarrow> char \<Rightarrow> char \<Rightarrow> string \<Rightarrow> string \<Rightarrow> string \<Rightarrow> string \<Rightarrow> bool"
where
  "bracket_contract f opn cls s u b v \<longleftrightarrow>
     f s = map snd (filter (\<lambda>(dp, c). dp = 0 \<and> c \<noteq> opn \<and> c \<noteq> cls)
                           (zip (depth_trace opn cls 0 s) s)) \<and>
     (\<forall>dp \<in> set (depth_trace opn cls 0 s). 0 \<le> dp) \<and>
     opn \<notin> set (f s) \<and> cls \<notin> set (f s) \<and>
     (depth_after opn cls 0 u = 0 \<longrightarrow> f (u @ cls # v) = f (u @ v)) \<and>
     (depth_after opn cls 0 u = 0 \<and> inside_block opn cls v \<longrightarrow> f (u @ opn # v) = f u) \<and>
     (depth_after opn cls 0 u = 0 \<and> inside_block opn cls b \<and> depth_after opn cls 1 b = 1 \<longrightarrow>
        f (u @ opn # b @ cls # v) = f u @ f v)"

section \<open>Specification notions for the store\<close>

declare upper_bound_loop.simps [simp del] lower_bound_loop.simps [simp del]

text \<open>
  \<open>r\<close> is the partition point of the index range \<open>[first, first + len)\<close> for a
  predicate \<open>P\<close> on start times: \<open>P\<close> holds before \<open>r\<close> and fails from \<open>r\<close> on.
\<close>

definition partition_point :: "SubtitleEntry list \<Rightarrow> (real \<Rightarrow> bool) \<Rightarrow> nat \<Rightarrow> nat \<Rightarrow> nat \<Rightarrow> bool" where
  "partition_point es P first len r \<longleftrightarrow>
     first \<le> r \<and> r \<le> first + len \<and>
     (\<forall>i. first \<le> i \<and> i < r \<longrightarrow> P (start (es ! i))) \<and>
     (\<forall>i. r \<le> i \<and> i < first + len \<longrightarrow> \<not> P (start (es ! i)))"

text \<open>
  The entry the lookup is specified to find: among the entries that have started at time
  \<open>t\<close>, the one last in store order. In a store ordered by \<open>start\<close> it has the greatest
  \<open>start\<close> that is at most \<open>t\<close>.
\<close>

definition latest_started :: "SubtitleTrack \<Rightarrow> real \<Rightarrow> SubtitleEntry option" where
  "latest_started es t =
     (case filter (\<lambda>e. start e \<le> t) es of [] \<Rightarrow> None | c # cs \<Rightarrow> Some (last (c # cs)))"

section \<open>Specification notions for the loaders\<close>

text \<open>
  The two example inputs: the single SRT block and the three ASS lines, the lines
  separated by line feeds.
\<close>

definition srt_example :: string where
  "srt_example = ''1'' @ [CHR 0x0A] @ ''00:00:01,000 --> 00:00:04,000'' @ [CHR 0x0A] @
                 ''Hello'' @ [CHR 0x0A, CHR 0x0A]"

definition ass_example :: string where
  "ass_example = ''[Events]'' @ [CHR 0x0A] @
     ''Format: Layer,Start,End,Style,Name,MarginL,MarginR,MarginV,Effect,Text'' @ [CHR 0x0A] @
     ''Dialogue: 0,0:00:01.00,0:00:03.50,Default,,0,0,0,,Hi, there''"

text \<open>
  A dialogue data string put together from \<open>n\<close> leading columns, each followed by a
  comma, and the text of the text column.
\<close>

definition join_fields :: "string list \<Rightarrow> string \<Rightarrow> string" where
  "join_fields fs txt = concat (map (\<lambda>f. f @ '','') fs) @ txt"

text \<open>Every entry of a store has a non-empty text.\<close>

definition texts_nonempty :: "SubtitleEntry list \<Rightarrow> bool" where
  "texts_nonempty es = list_all (\<lambda>e. text' e \<noteq> []) es"

section \<open>Properties of the text cleaner\<close>

lemma strip_loop_Cons:
  "strip_loop opn cls d (c # s) =
     (if c \<noteq> opn \<and> c \<noteq> cls \<and> d = 0 then [c] else []) @
     strip_loop opn cls (depth_step opn cls d c) s"
  by (simp add: depth_step_def)

lemma strip_loop_no_brackets:
  "opn \<notin> set (strip_loop opn cls d s) \<and> cls \<notin> set (strip_loop opn cls d s)"
  by (induction s arbitrary: d) auto

lemma strip_loop_subset: "set (strip_loop opn cls d s) \<subseteq> set s"
  by (induction s arbitrary: d) auto

lemma strip_loop_id:
  "opn \<notin> set s \<Longrightarrow> cls \<notin> set s \<Longrightarrow> strip_loop opn cls 0 s = s"
  by (induction s) auto

lemma depth_step_nonneg: "0 \<le> d \<Longrightarrow> 0 \<le> depth_step opn cls d c"
  by (simp add: depth_step_def)

lemma depth_after_nonneg: "0 \<le> d \<Longrightarrow> 0 \<le> depth_after opn cls d s"
  unfolding depth_after_def
  by (induction s arbitrary: d) (simp_all add: depth_step_nonneg)

lemma depth_trace_nonneg: "0 \<le> d \<Longrightarrow> x \<in> set (depth_trace opn cls d s) \<Longrightarrow> 0 \<le> x"
proof (induction s arbitrary: d)
  case Nil
  then show ?case by simp
next
  case (Cons c s)
  then show ?case
    using depth_step_nonneg [of d opn cls c] by auto
qed

lemma depth_trace_nth:
  "k < length s \<Longrightarrow> depth_trace opn cls d s ! k = depth_after opn cls d (take k s)"
proof (induction s arbitrary: d k)
  case Nil
  then show ?case by simp
next
  case (Cons c s)
  then show ?case
    by (cases k) (simp_all add: depth_after_def)
qed

lemma strip_loop_trace:
  "strip_loop opn cls d s =
     map snd (filter (\<lambda>(dp, c). dp = 0 \<and> c \<noteq> opn \<and> c \<noteq> cls)
                     (zip (depth_trace opn cls d s) s))"
  by (induction s arbitrary: d) (auto simp: depth_step_def)

lemma strip_loop_append:
  "strip_loop opn cls d (s @ t) =
     strip_loop opn cls d s @ strip_loop opn cls (depth_after opn cls d s) t"
  unfolding depth_after_def
  by (induction s arbitrary: d) (simp_all add: strip_loop_Cons del: strip_loop.simps(2))

lemma strip_loop_positive:
  "0 < d \<Longrightarrow> \<forall>k \<le> length v. 0 < depth_after opn cls d (take k v) \<Longrightarrow>
   strip_loop opn cls d v = []"
proof (induction v arbitrary: d)
  case Nil
  then show ?case by simp
next
  case (Cons c v)
  have pos: "0 < depth_step opn cls d c"
    using Cons.prems(2) [rule_format, of 1] by (simp add: depth_after_def)
  have rest: "\<forall>k \<le> length v. 0 < depth_after opn cls (depth_step opn cls d c) (take k v)"
  proof (intro allI impI)
    fix k assume "k \<le> length v"
    then show "0 < depth_after opn cls (depth_step opn cls d c) (take k v)"
      using Cons.prems(2) [rule_format, of "Suc k"] by (simp add: depth_after_def)
  qed
  show ?case
    using Cons.IH [OF pos rest] Cons.prems(1)
    by (simp add: strip_loop_Cons del: strip_loop.simps)
qed

lemma inside_block_iff:
  "inside_block opn cls b \<longleftrightarrow> (\<forall>k \<le> length b. 0 < depth_after opn cls 1 (take k b))"
  by (auto simp: inside_block_def list_all_iff less_Suc_eq_le)

lemma strip_unmatched_close:
  assumes "opn \<noteq> cls" "depth_after opn cls 0 u = 0"
  shows "strip_loop opn cls 0 (u @ cls # v) = strip_loop opn cls 0 (u @ v)"
  using assms by (simp add: strip_loop_append)

lemma strip_unmatched_open:
  assumes "depth_after opn cls 0 u = 0" "inside_block opn cls v"
  shows "strip_loop opn cls 0 (u @ opn # v) = strip_loop opn cls 0 u"
  using assms strip_loop_positive [of 1 v opn cls]
  by (simp add: strip_loop_append inside_block_iff)

lemma strip_block:
  assumes "opn \<noteq> cls" "depth_after opn cls 0 u = 0" "inside_block opn cls b"
    "depth_after opn cls 1 b = 1"
  shows "strip_loop opn cls 0 (u @ opn # b @ cls # v) =
         strip_loop opn cls 0 u @ strip_loop opn cls 0 v"
  using assms strip_loop_positive [of 1 b opn cls]
  by (simp add: strip_loop_append inside_block_iff)

lemma strip_loop_contract:
  assumes "opn \<noteq> cls"
  shows "bracket_contract (strip_loop opn cls 0) opn cls s u b v"
  unfolding bracket_contract_def
proof (intro conjI impI)
  show "strip_loop opn cls 0 s =
        map snd (filter (\<lambda>(dp, c). dp = 0 \<and> c \<noteq> opn \<and> c \<noteq> cls)
                        (zip (depth_trace opn cls 0 s) s))"
    by (rule strip_loop_trace)
  show "\<forall>dp \<in> set (depth_trace opn cls 0 s). 0 \<le> dp"
    using depth_trace_nonneg [of 0 _ opn cls s] by blast
  show "opn \<notin> set (strip_loop opn cls 0 s)" "cls \<notin> set (strip_loop opn cls 0 s)"
    using strip_loop_no_brackets by blast+
next
  assume "depth_after opn cls 0 u = 0"
  then show "strip_loop opn cls 0 (u @ cls # v) = strip_loop opn cls 0 (u @ v)"
    using assms by (rule strip_unmatched_close [rotated])
next
  assume "depth_after opn cls 0 u = 0 \<and> inside_block opn cls v"
  then show "strip_loop opn cls 0 (u @ opn # v) = strip_loop opn cls 0 u"
    using strip_unmatched_open by blast
next
  assume "depth_after opn cls 0 u = 0 \<and> inside_block opn cls b \<and> depth_after opn cls 1 b = 1"
  then show "strip_loop opn cls 0 (u @ opn # b @ cls # v) =
             strip_loop opn cls 0 u @ strip_loop opn cls 0 v"
    using assms strip_block by blast
qed

text \<open>
  Claim C7. \<^verbatim>\<open>strip_ass_tags\<close> (brackets \<open>{\<close>, \<open>}\<close>) and \<^verbatim>\<open>strip_html_tags\<close> (brackets
  \<open><\<close>, \<open>>\<close>) keep exactly the non-bracket characters read at depth zero; the depth
  never goes negative; an unmatched closing bracket is ignored and not emitted; after an
  unmatched opening bracket the rest of the string is dropped; every block delimited by a
  depth-tracked bracket pair is removed.
\<close>

theorem strip_tags_contract:
  "bracket_contract strip_ass_tags (CHR ''{'') (CHR ''}'') s u b v \<and>
   bracket_contract strip_html_tags (CHR ''<'') (CHR ''>'') s u b v"
proof -
  have a: "strip_ass_tags = strip_loop (CHR ''{'') (CHR ''}'') 0"
    by (rule ext) (simp add: strip_ass_tags_def)
  have h: "strip_html_tags = strip_loop (CHR ''<'') (CHR ''>'') 0"
    by (rule ext) (simp add: strip_html_tags_def)
  show ?thesis
    unfolding a h by (intro conjI strip_loop_contract) simp_all
qed

theorem strip_tags_contract_witness:
  "depth_after (CHR ''{'') (CHR ''}'') 0 ''a'' = 0 \<and>
   inside_block (CHR ''{'') (CHR ''}'') ''e'' \<and>
   inside_block (CHR ''{'') (CHR ''}'') ''b{c}<d>'' \<and>
   depth_after (CHR ''{'') (CHR ''}'') 1 ''b{c}<d>'' = 1 \<and>
   depth_after (CHR ''<'') (CHR ''>'') 0 ''a'' = 0 \<and>
   inside_block (CHR ''<'') (CHR ''>'') ''e'' \<and>
   inside_block (CHR ''<'') (CHR ''>'') ''b{c}<d>'' \<and>
   depth_after (CHR ''<'') (CHR ''>'') 1 ''b{c}<d>'' = 1 \<and>
   depth_trace (CHR ''{'') (CHR ''}'') 0 ''x}y{z'' = [0, 0, 0, 0, 1] \<and>
   strip_ass_tags ''x}y{z'' = ''xy'' \<and>
   strip_ass_tags ''a}e'' = strip_ass_tags ''ae'' \<and>
   strip_ass_tags ''a{e'' = strip_ass_tags ''a'' \<and>
   strip_ass_tags ''a{b{c}<d>}e'' = strip_ass_tags ''a'' @ strip_ass_tags ''e'' \<and>
   strip_html_tags ''a>e'' = strip_html_tags ''ae'' \<and>
   strip_html_tags ''a<e'' = strip_html_tags ''a'' \<and>
   strip_html_tags ''a<b{c}<d>>e'' = strip_html_tags ''a'' @ strip_html_tags ''e''"
proof -
  have hyps:
    "depth_after (CHR ''{'') (CHR ''}'') 0 ''a'' = 0"
    "inside_block (CHR ''{'') (CHR ''}'') ''e''"
    "inside_block (CHR ''{'') (CHR ''}'') ''b{c}<d>''"
    "depth_after (CHR ''{'') (CHR ''}'') 1 ''b{c}<d>'' = 1"
    "depth_after (CHR ''<'') (CHR ''>'') 0 ''a'' = 0"
    "inside_block (CHR ''<'') (CHR ''>'') ''e''"
    "inside_block (CHR ''<'') (CHR ''>'') ''b{c}<d>''"
    "depth_after (CHR ''<'') (CHR ''>'') 1 ''b{c}<d>'' = 1"
    "depth_trace (CHR ''{'') (CHR ''}'') 0 ''x}y{z'' = [0, 0, 0, 0, 1]"
    "strip_ass_tags ''x}y{z'' = ''xy''"
    by code_simp+
  note c = strip_tags_contract [of "''x}y{z''" "''a''" "''b{c}<d>''" "''e''",
      unfolded bracket_contract_def]
  have a1: "strip_ass_tags (''a'' @ CHR ''}'' # ''e'') = strip_ass_tags (''a'' @ ''e'')"
    using c hyps(1) by blast
  have a2: "strip_ass_tags (''a'' @ CHR ''{'' # ''e'') = strip_ass_tags ''a''"
    using c hyps(1,2) by blast
  have a3: "strip_ass_tags (''a'' @ CHR ''{'' # ''b{c}<d>'' @ CHR ''}'' # ''e'') =
            strip_ass_tags ''a'' @ strip_ass_tags ''e''"
    using c hyps(1,3,4) by blast
  have h1: "strip_html_tags (''a'' @ CHR ''>'' # ''e'') = strip_html_tags (''a'' @ ''e'')"
    using c hyps(5) by blast
  have h2: "strip_html_tags (''a'' @ CHR ''<'' # ''e'') = strip_html_tags ''a''"
    using c hyps(5,6) by blast
  have h3: "strip_html_tags (''a'' @ CHR ''<'' # ''b{c}<d>'' @ CHR ''>'' # ''e'') =
            strip_html_tags ''a'' @ strip_html_tags ''e''"
    using c hyps(5,7,8) by blast
  show ?thesis
    using a1 a2 a3 h1 h2 h3
    by (simp only: hyps append.simps simp_thms)
qed

lemma unescape_set: "set (unescape s) \<subseteq> insert (CHR 0x0A) (set s)"
  by (induction s rule: unescape.induct) auto

lemma unescape_head:
  "\<exists>t. unescape (d # s) = d # t \<or> unescape (d # s) = CHR 0x0A # t"
  by (cases s) auto

lemma esc_free_unescape: "esc_free (unescape s)"
proof (induction s rule: unescape.induct)
  case (3 c d s)
  obtain t where t: "unescape (d # s) = d # t \<or> unescape (d # s) = CHR 0x0A # t"
    using unescape_head by blast
  show ?case
  proof (cases "c = CHR 0x5C \<and> (d = CHR ''N'' \<or> d = CHR ''n'')")
    case True
    then show ?thesis
    proof (cases "unescape s")
      case Nil
      then show ?thesis using True by simp
    next
      case (Cons a list)
      then show ?thesis using True 3 by simp
    qed
  next
    case False
    then show ?thesis using 3 t by auto
  qed
qed simp_all

lemma unescape_id: "esc_free s \<Longrightarrow> unescape s = s"
  by (induction s rule: unescape.induct) auto

lemma esc_free_tl: "esc_free (c # s) \<Longrightarrow> esc_free s"
  by (cases s) auto

lemma esc_free_drop: "esc_free s \<Longrightarrow> esc_free (drop k s)"
proof (induction k arbitrary: s)
  case 0 then show ?case by simp
next
  case (Suc k)
  then show ?case by (cases s) (auto dest: esc_free_tl)
qed

lemma esc_free_take: "esc_free s \<Longrightarrow> esc_free (take k s)"
proof (induction s arbitrary: k rule: esc_free.induct)
  case 1 then show ?case by simp
next
  case (2 c) then show ?case by (cases k) auto
next
  case (3 c d s)
  show ?case
  proof (cases k)
    case 0 then show ?thesis by simp
  next
    case (Suc j)
    then show ?thesis using "3.IH" [of j] "3.prems" by (cases j) auto
  qed
qed

lemma find_first_Some:
  "find_first_not_of cs s = Some f \<Longrightarrow> f < length s \<and> s ! f \<notin> set cs"
  by (induction s arbitrary: f) (auto split: if_splits)

lemma find_first_None:
  "find_first_not_of cs s = None \<longleftrightarrow> set s \<subseteq> set cs"
  by (induction s) auto

lemma find_first_least:
  "find_first_not_of cs s = Some f \<Longrightarrow> i < f \<Longrightarrow> s ! i \<in> set cs"
proof (induction s arbitrary: f i)
  case Nil then show ?case by simp
next
  case (Cons c s)
  then show ?case by (cases i) (auto split: if_splits)
qed

lemma find_last_Some:
  assumes "find_last_not_of cs s = Some l"
  shows "l < length s \<and> s ! l \<notin> set cs"
proof -
  from assms obtain k where k: "find_first_not_of cs (rev s) = Some k" "l = length s - 1 - k"
    by (auto simp: find_last_not_of_def)
  from find_first_Some [OF k(1)] have "k < length s" "rev s ! k \<notin> set cs" by simp_all
  then show ?thesis using k(2) by (simp add: rev_nth)
qed

lemma find_last_greatest:
  assumes "find_last_not_of cs s = Some l" "l < i" "i < length s"
  shows "s ! i \<in> set cs"
proof -
  from assms obtain k where k: "find_first_not_of cs (rev s) = Some k" "l = length s - 1 - k"
    by (auto simp: find_last_not_of_def)
  from find_first_Some [OF k(1)] have kl: "k < length s" by simp
  have "length s - 1 - i < k" using assms k(2) kl by linarith
  from find_first_least [OF k(1) this] show ?thesis
    using assms by (simp add: rev_nth)
qed

lemma find_first_le_last:
  assumes "find_first_not_of cs s = Some f"
  shows "\<exists>l. find_last_not_of cs s = Some l \<and> f \<le> l"
proof -
  from find_first_Some [OF assms] have f: "f < length s" "s ! f \<notin> set cs" by simp_all
  have "s ! f \<in> set s" using f(1) by simp
  then have "\<not> set (rev s) \<subseteq> set cs" using f(2) by auto
  then have "find_first_not_of cs (rev s) \<noteq> None"
    by (simp only: find_first_None not_False_eq_True)
  then obtain l where l: "find_last_not_of cs s = Some l"
    by (auto simp: find_last_not_of_def)
  have "f \<le> l"
  proof (rule ccontr)
    assume "\<not> f \<le> l"
    then have "l < f" by simp
    from find_last_greatest [OF l this f(1)] f(2) show False by simp
  qed
  with l show ?thesis by blast
qed

lemma trim_chars_Some:
  assumes "find_first_not_of cs s = Some f"
  obtains l where "find_last_not_of cs s = Some l" "f \<le> l" "l < length s"
    "trim_chars cs s = take (l - f + 1) (drop f s)"
proof -
  from find_first_le_last [OF assms] obtain l
    where l: "find_last_not_of cs s = Some l" "f \<le> l" by blast
  from find_last_Some [OF l(1)] have "l < length s" by simp
  moreover have "trim_chars cs s = take (l - f + 1) (drop f s)"
    using assms l by (simp add: trim_chars_def substr_def)
  ultimately show ?thesis using l that by blast
qed

lemma trim_chars_ends:
  "trim_chars cs s = [] \<or>
   (hd (trim_chars cs s) \<notin> set cs \<and> last (trim_chars cs s) \<notin> set cs)"
proof (cases "find_first_not_of cs s")
  case None
  then show ?thesis by (simp add: trim_chars_def)
next
  case (Some f)
  then obtain l where l: "find_last_not_of cs s = Some l" "f \<le> l" "l < length s"
    "trim_chars cs s = take (l - f + 1) (drop f s)"
    by (rule trim_chars_Some)
  let ?t = "take (l - f + 1) (drop f s)"
  have len: "length ?t = l - f + 1" using l by simp
  then have ne: "?t \<noteq> []" by (metis Suc_eq_plus1 length_0_conv nat.distinct(1))
  have "hd ?t = s ! f" using l by (simp add: hd_conv_nth ne hd_drop_conv_nth)
  moreover have "last ?t = s ! l"
    using l len ne by (simp add: last_conv_nth)
  ultimately show ?thesis
    using find_first_Some [OF Some] find_last_Some [OF l(1)] l(4) by simp
qed

lemma trim_chars_fixed:
  assumes "t = [] \<or> (hd t \<notin> set cs \<and> last t \<notin> set cs)"
  shows "trim_chars cs t = t"
proof (cases t)
  case Nil
  then show ?thesis by (simp add: trim_chars_def)
next
  case (Cons c r)
  with assms have h: "c \<notin> set cs" and l: "last t \<notin> set cs" by auto
  have ff: "find_first_not_of cs t = Some 0" using Cons h by simp
  have "t \<noteq> []" using Cons by simp
  then obtain ys y where ys: "t = ys @ [y]"
    by (metis append_butlast_last_id)
  then have "find_first_not_of cs (rev t) = Some 0" using l by simp
  then have fl: "find_last_not_of cs t = Some (length t - 1)"
    by (simp add: find_last_not_of_def)
  show ?thesis using ff fl Cons by (simp add: trim_chars_def substr_def)
qed

lemma trim_chars_idem: "trim_chars cs (trim_chars cs s) = trim_chars cs s"
  by (rule trim_chars_fixed) (rule trim_chars_ends)

lemma trim_chars_subset: "set (trim_chars cs s) \<subseteq> set s"
proof (cases "find_first_not_of cs s")
  case None
  then show ?thesis by (simp add: trim_chars_def)
next
  case (Some f)
  then obtain l where "trim_chars cs s = take (l - f + 1) (drop f s)"
    by (rule trim_chars_Some)
  then show ?thesis
    by (metis set_take_subset set_drop_subset subset_trans)
qed

lemma esc_free_trim: "esc_free s \<Longrightarrow> esc_free (trim_chars cs s)"
proof (cases "find_first_not_of cs s")
  case None
  then show ?thesis by (simp add: trim_chars_def)
next
  case (Some f)
  assume e: "esc_free s"
  from Some obtain l where "trim_chars cs s = take (l - f + 1) (drop f s)"
    by (rule trim_chars_Some)
  then show ?thesis using e by (simp add: esc_free_take esc_free_drop)
qed

lemma clean_text_no_brackets:
  "c \<in> set (clean_text s) \<Longrightarrow> c \<notin> {CHR ''{'', CHR ''}'', CHR ''<'', CHR ''>''}"
proof -
  assume c: "c \<in> set (clean_text s)"
  let ?h = "strip_html_tags s"
  let ?a = "strip_ass_tags ?h"
  have "c \<in> insert (CHR 0x0A) (set ?a)"
    using c trim_chars_subset unescape_set unfolding clean_text_def by blast
  moreover have "CHR ''{'' \<notin> set ?a" "CHR ''}'' \<notin> set ?a"
    using strip_loop_no_brackets unfolding strip_ass_tags_def by blast+
  moreover have "set ?a \<subseteq> set ?h"
    unfolding strip_ass_tags_def by (rule strip_loop_subset)
  moreover have "CHR ''<'' \<notin> set ?h" "CHR ''>'' \<notin> set ?h"
    using strip_loop_no_brackets unfolding strip_html_tags_def by blast+
  ultimately show ?thesis by auto
qed

text \<open>
  Claim C6. \<^verbatim>\<open>clean_text\<close> is idempotent: cleaning a cleaned string changes nothing. This
  holds for every input string, so in particular for the inputs made of the supported
  bracket and escape constructs only.
\<close>

theorem clean_text_idempotent: "clean_text (clean_text s) = clean_text s"
proof -
  let ?r = "clean_text s"
  have nb: "CHR ''{'' \<notin> set ?r" "CHR ''}'' \<notin> set ?r" "CHR ''<'' \<notin> set ?r" "CHR ''>'' \<notin> set ?r"
    using clean_text_no_brackets [of _ s] by auto
  have h: "strip_html_tags ?r = ?r"
    unfolding strip_html_tags_def using nb by (intro strip_loop_id)
  have a: "strip_ass_tags ?r = ?r"
    unfolding strip_ass_tags_def using nb by (intro strip_loop_id)
  have "esc_free ?r"
    unfolding clean_text_def by (intro esc_free_trim esc_free_unescape)
  then have u: "unescape ?r = ?r" by (rule unescape_id)
  have t: "trim_chars ws_clean ?r = ?r"
    unfolding clean_text_def by (rule trim_chars_idem)
  have "clean_text ?r = trim_chars ws_clean (unescape (strip_ass_tags (strip_html_tags ?r)))"
    by (simp add: clean_text_def)
  also have "\<dots> = ?r" using h a u t by simp
  finally show ?thesis .
qed

section \<open>Properties of the store\<close>



lemma sorted_by_start_nth:
  "sorted_by_start es \<Longrightarrow> i \<le> j \<Longrightarrow> j < length es \<Longrightarrow> start (es ! i) \<le> start (es ! j)"
  unfolding sorted_by_start_def
  using sorted_nth_mono [of "map start es" i j] by simp

lemma upper_bound_loop_spec:
  "sorted_by_start es \<Longrightarrow> first + len \<le> length es \<Longrightarrow>
   partition_point es (\<lambda>x. x \<le> t) first len (upper_bound_loop es t first len)"
proof (induction es t first len rule: upper_bound_loop.induct)
  case (1 es t first len)
  let ?mid = "first + len div 2"
  show ?case
  proof (cases "len = 0")
    case True
    then show ?thesis
      by (subst upper_bound_loop.simps) (simp add: partition_point_def)
  next
    case False
    then have mid: "?mid < first + len" "?mid < length es" using "1.prems"(2) by auto
    show ?thesis
    proof (cases "t < start (es ! ?mid)")
      case True
      have ih: "partition_point es (\<lambda>x. x \<le> t) first (len div 2)
                  (upper_bound_loop es t first (len div 2))"
        using "1.IH"(1) [OF False True "1.prems"(1)] "1.prems"(2) by simp
      have up: "\<And>i. ?mid \<le> i \<Longrightarrow> i < first + len \<Longrightarrow> t < start (es ! i)"
      proof -
        fix i assume "?mid \<le> i" "i < first + len"
        then have "start (es ! ?mid) \<le> start (es ! i)"
          using sorted_by_start_nth [OF "1.prems"(1), of ?mid i] "1.prems"(2) by simp
        with True show "t < start (es ! i)" by simp
      qed
      have eq: "upper_bound_loop es t first len = upper_bound_loop es t first (len div 2)"
        using False True by (subst upper_bound_loop.simps) simp
      show ?thesis
        unfolding eq using ih up
        by (auto simp: partition_point_def not_le) (meson not_le_imp_less)
    next
      case nlt: False
      have ih: "partition_point es (\<lambda>x. x \<le> t) (?mid + 1) (len - len div 2 - 1)
                  (upper_bound_loop es t (?mid + 1) (len - len div 2 - 1))"
        using "1.IH"(2) [OF False nlt "1.prems"(1)] "1.prems"(2) False by simp
      have lo: "\<And>i. i \<le> ?mid \<Longrightarrow> start (es ! i) \<le> t"
      proof -
        fix i assume "i \<le> ?mid"
        then have "start (es ! i) \<le> start (es ! ?mid)"
          using sorted_by_start_nth [OF "1.prems"(1), of i ?mid] mid by simp
        with nlt show "start (es ! i) \<le> t" by simp
      qed
      have eq: "upper_bound_loop es t first len =
                upper_bound_loop es t (?mid + 1) (len - len div 2 - 1)"
        using False nlt by (subst upper_bound_loop.simps) simp
      have sz: "?mid + 1 + (len - len div 2 - 1) = first + len" using False by simp
      show ?thesis
        unfolding eq using ih lo sz
        by (auto simp: partition_point_def not_le) (meson not_less_eq_eq Suc_eq_plus1 not_le_imp_less le_trans)+
    qed
  qed
qed


lemma lower_bound_loop_spec:
  "sorted_by_start es \<Longrightarrow> first + len \<le> length es \<Longrightarrow>
   partition_point es (\<lambda>x. x < s) first len (lower_bound_loop es s first len)"
proof (induction es s first len rule: lower_bound_loop.induct)
  case (1 es s first len)
  let ?mid = "first + len div 2"
  show ?case
  proof (cases "len = 0")
    case True
    then show ?thesis
      by (subst lower_bound_loop.simps) (simp add: partition_point_def)
  next
    case False
    then have mid: "?mid < first + len" "?mid < length es" using "1.prems"(2) by auto
    show ?thesis
    proof (cases "start (es ! ?mid) < s")
      case True
      have ih: "partition_point es (\<lambda>x. x < s) (?mid + 1) (len - len div 2 - 1)
                  (lower_bound_loop es s (?mid + 1) (len - len div 2 - 1))"
        using "1.IH"(1) [OF False True "1.prems"(1)] "1.prems"(2) False by simp
      have lo: "\<And>i. i \<le> ?mid \<Longrightarrow> start (es ! i) < s"
      proof -
        fix i assume "i \<le> ?mid"
        then have "start (es ! i) \<le> start (es ! ?mid)"
          using sorted_by_start_nth [OF "1.prems"(1), of i ?mid] mid by simp
        with True show "start (es ! i) < s" by simp
      qed
      have eq: "lower_bound_loop es s first len =
                lower_bound_loop es s (?mid + 1) (len - len div 2 - 1)"
        using False True by (subst lower_bound_loop.simps) simp
      have sz: "?mid + 1 + (len - len div 2 - 1) = first + len" using False by simp
      show ?thesis
        unfolding eq using ih lo sz
        by (auto simp: partition_point_def not_le) (meson not_less_eq_eq Suc_eq_plus1 not_le_imp_less le_trans)+
    next
      case nlt: False
      have ih: "partition_point es (\<lambda>x. x < s) first (len div 2)
                  (lower_bound_loop es s first (len div 2))"
        using "1.IH"(2) [OF False nlt "1.prems"(1)] "1.prems"(2) by simp
      have up: "\<And>i. ?mid \<le> i \<Longrightarrow> i < first + len \<Longrightarrow> \<not> start (es ! i) < s"
      proof -
        fix i assume "?mid \<le> i" "i < first + len"
        then have "start (es ! ?mid) \<le> start (es ! i)"
          using sorted_by_start_nth [OF "1.prems"(1), of ?mid i] "1.prems"(2) by simp
        with nlt show "\<not> start (es ! i) < s" by simp
      qed
      have eq: "lower_bound_loop es s first len = lower_bound_loop es s first (len div 2)"
        using False nlt by (subst lower_bound_loop.simps) simp
      show ?thesis
        unfolding eq using ih up
        by (auto simp: partition_point_def not_le) (meson not_le_imp_less)
    qed
  qed
qed

lemma partition_point_filter:
  assumes "partition_point es P 0 (length es) r"
  shows "filter (\<lambda>e. P (start e)) es = take r es \<and> filter (\<lambda>e. \<not> P (start e)) es = drop r es"
proof -
  from assms have r: "r \<le> length es"
    and lo: "\<And>i. i < r \<Longrightarrow> P (start (es ! i))"
    and hi: "\<And>i. r \<le> i \<Longrightarrow> i < length es \<Longrightarrow> \<not> P (start (es ! i))"
    by (auto simp: partition_point_def)
  have t: "\<forall>e \<in> set (take r es). P (start e)"
  proof
    fix e assume "e \<in> set (take r es)"
    then obtain i where "i < length (take r es)" "take r es ! i = e"
      by (auto simp: in_set_conv_nth)
    then show "P (start e)" using lo [of i] by auto
  qed
  have d: "\<forall>e \<in> set (drop r es). \<not> P (start e)"
  proof
    fix e assume "e \<in> set (drop r es)"
    then obtain i where "i < length (drop r es)" "drop r es ! i = e"
      by (auto simp: in_set_conv_nth)
    then show "\<not> P (start e)" using hi [of "r + i"] r by auto
  qed
  have "filter (\<lambda>e. P (start e)) es =
        filter (\<lambda>e. P (start e)) (take r es) @ filter (\<lambda>e. P (start e)) (drop r es)"
    by (metis append_take_drop_id filter_append)
  also have "\<dots> = take r es" using t d by (simp add: filter_id_conv filter_empty_conv)
  finally have a: "filter (\<lambda>e. P (start e)) es = take r es" .
  have "filter (\<lambda>e. \<not> P (start e)) es =
        filter (\<lambda>e. \<not> P (start e)) (take r es) @ filter (\<lambda>e. \<not> P (start e)) (drop r es)"
    by (metis append_take_drop_id filter_append)
  also have "\<dots> = drop r es" using t d by (simp add: filter_id_conv filter_empty_conv)
  finally show ?thesis using a by simp
qed

lemma upper_bound_filter:
  assumes "sorted_by_start es"
  shows "upper_bound es t \<le> length es"
    and "filter (\<lambda>e. start e \<le> t) es = take (upper_bound es t) es"
proof -
  have pp: "partition_point es (\<lambda>x. x \<le> t) 0 (length es) (upper_bound es t)"
    unfolding upper_bound_def using upper_bound_loop_spec [OF assms, of 0 "length es" t] by simp
  then show "upper_bound es t \<le> length es" by (simp add: partition_point_def)
  from partition_point_filter [OF pp]
  show "filter (\<lambda>e. start e \<le> t) es = take (upper_bound es t) es" by simp
qed

lemma lower_bound_filter:
  assumes "sorted_by_start es"
  shows "lower_bound es entry \<le> length es"
    and "filter (\<lambda>e. start e < start entry) es = take (lower_bound es entry) es"
    and "filter (\<lambda>e. start entry \<le> start e) es = drop (lower_bound es entry) es"
proof -
  have pp: "partition_point es (\<lambda>x. x < start entry) 0 (length es) (lower_bound es entry)"
    unfolding lower_bound_def
    using lower_bound_loop_spec [OF assms, of 0 "length es" "start entry"] by simp
  then show "lower_bound es entry \<le> length es" by (simp add: partition_point_def)
  from partition_point_filter [OF pp]
  show "filter (\<lambda>e. start e < start entry) es = take (lower_bound es entry) es"
    and "filter (\<lambda>e. start entry \<le> start e) es = drop (lower_bound es entry) es"
    by (simp_all add: not_less)
qed

lemma get_active_latest:
  assumes "sorted_by_start es"
  shows "get_active es t =
           (case latest_started es t of
              None \<Rightarrow> []
            | Some e \<Rightarrow> if t < end' e then text' e else [])"
proof -
  let ?k = "upper_bound es t"
  have k: "?k \<le> length es" and f: "filter (\<lambda>e. start e \<le> t) es = take ?k es"
    using upper_bound_filter [OF assms] by simp_all
  show ?thesis
  proof (cases "?k = 0")
    case True
    then show ?thesis by (simp add: get_active_def latest_started_def f)
  next
    case False
    then have ne: "es \<noteq> []" "take ?k es \<noteq> []" using k by auto
    have l: "last (take ?k es) = es ! (?k - 1)"
      using False k by (simp add: last_conv_nth ne)
    have "es ! (?k - 1) \<in> set (filter (\<lambda>e. start e \<le> t) es)"
      unfolding f using l ne(2) last_in_set by metis
    then have st: "start (es ! (?k - 1)) \<le> t" by simp
    obtain c cs where c: "take ?k es = c # cs" using ne(2) by (cases "take ?k es") auto
    have "latest_started es t = Some (es ! (?k - 1))"
      using l c by (simp add: latest_started_def f)
    then show ?thesis using False ne(1) st by (simp add: get_active_def Let_def)
  qed
qed

lemma latest_started_greatest:
  assumes "sorted_by_start es" "latest_started es t = Some e"
  shows "e \<in> set es \<and> start e \<le> t \<and> (\<forall>x \<in> set es. start x \<le> t \<longrightarrow> start x \<le> start e)"
proof -
  let ?c = "filter (\<lambda>e. start e \<le> t) es"
  from assms(2) have ne: "?c \<noteq> []" and e: "e = last ?c"
    by (auto simp: latest_started_def split: list.splits)
  have "last ?c \<in> set ?c" using ne by (rule last_in_set)
  then have mem: "e \<in> set es" "start e \<le> t"
    unfolding e [symmetric] set_filter by blast+
  have srt: "sorted (map start ?c)"
    using assms(1) unfolding sorted_by_start_def by (rule sorted_filter)
  have "\<forall>x \<in> set ?c. start x \<le> start e"
  proof
    fix x assume "x \<in> set ?c"
    then obtain i where i: "i < length ?c" "?c ! i = x"
      unfolding in_set_conv_nth by blast
    have "map start ?c ! i \<le> map start ?c ! (length ?c - 1)"
      using srt i(1) by (intro sorted_nth_mono) auto
    then show "start x \<le> start e"
      using i ne e by (simp add: last_conv_nth)
  qed
  with mem show ?thesis unfolding set_filter by blast
qed

lemma add_ffmpeg_entry_filter:
  assumes "sorted_by_start es" "clean_text raw \<noteq> []"
  shows "add_ffmpeg_entry s e raw es =
           filter (\<lambda>x. start x < s) es @
           \<lparr>start = s, end' = e, text' = clean_text raw\<rparr> # filter (\<lambda>x. s \<le> start x) es"
proof -
  let ?entry = "\<lparr>start = s, end' = e, text' = clean_text raw\<rparr>"
  from lower_bound_filter(2,3) [OF assms(1), of ?entry]
  have "filter (\<lambda>x. start x < s) es = take (lower_bound es ?entry) es"
    and "filter (\<lambda>x. s \<le> start x) es = drop (lower_bound es ?entry) es"
    by simp_all
  then show ?thesis
    using assms(2) by (simp add: add_ffmpeg_entry_def insert_at_def Let_def)
qed

lemma sorted_by_start_around:
  assumes "sorted_by_start es" "start x = s"
  shows "sorted_by_start (filter (\<lambda>e. start e < s) es @ x # filter (\<lambda>e. s \<le> start e) es)"
proof -
  have a: "sorted (map start (filter (\<lambda>e. start e < s) es))"
    and b: "sorted (map start (filter (\<lambda>e. s \<le> start e) es))"
    using assms(1) unfolding sorted_by_start_def by (auto intro: sorted_filter)
  show ?thesis
    unfolding sorted_by_start_def using a b assms(2)
    by (auto simp: sorted_append)
qed

lemma length_filter_split:
  "length (filter (\<lambda>x. start x < s) es) + length (filter (\<lambda>x. s \<le> start x) es) = length es"
  using sum_length_filter_compl [of "\<lambda>x. start x < s" es] by (simp add: not_less)

text \<open>
  Claim C1. In a store ordered by \<open>start\<close>, \<^verbatim>\<open>get_active(t)\<close> returns the text of the entry
  with the greatest \<open>start\<close> that is at most \<open>t\<close> (the last such entry of the store) when
  \<open>t\<close> lies before that entry's \<open>end\<close>, and the empty string otherwise, also when no
  entry has started. For a single entry it returns the text for \<open>t\<close> in \<open>[start, end)\<close>
  and the empty string at \<open>t = end\<close>. The lookup is a function of the store and the time:
  the const member function has no store to return.
\<close>

theorem get_active_correct:
  assumes "sorted_by_start es"
  shows "get_active es t =
           (case latest_started es t of
              None \<Rightarrow> []
            | Some e \<Rightarrow> if t < end' e then text' e else []) \<and>
         (\<forall>e. latest_started es t = Some e \<longrightarrow>
              e \<in> set es \<and> start e \<le> t \<and> (\<forall>x \<in> set es. start x \<le> t \<longrightarrow> start x \<le> start e)) \<and>
         (latest_started es t = None \<longleftrightarrow> (\<forall>x \<in> set es. t < start x)) \<and>
         (start e0 \<le> t \<and> t < end' e0 \<longrightarrow> get_active [e0] t = text' e0) \<and>
         get_active [e0] (end' e0) = []"
proof (intro conjI allI impI)
  show "get_active es t =
          (case latest_started es t of
             None \<Rightarrow> []
           | Some e \<Rightarrow> if t < end' e then text' e else [])"
    using assms by (rule get_active_latest)
next
  fix e assume "latest_started es t = Some e"
  from latest_started_greatest [OF assms this]
  show "e \<in> set es" "start e \<le> t" "\<forall>x \<in> set es. start x \<le> t \<longrightarrow> start x \<le> start e"
    by blast+
next
  have "latest_started es t = None \<longleftrightarrow> filter (\<lambda>e. start e \<le> t) es = []"
    by (simp add: latest_started_def split: list.splits)
  then show "latest_started es t = None \<longleftrightarrow> (\<forall>x \<in> set es. t < start x)"
    by (simp add: filter_empty_conv not_le)
next
  have s1: "sorted_by_start [e0]" by (simp add: sorted_by_start_def)
  assume "start e0 \<le> t \<and> t < end' e0"
  then show "get_active [e0] t = text' e0"
    using get_active_latest [OF s1, of t] by (simp add: latest_started_def)
next
  have s1: "sorted_by_start [e0]" by (simp add: sorted_by_start_def)
  show "get_active [e0] (end' e0) = []"
    using get_active_latest [OF s1, of "end' e0"] by (simp add: latest_started_def)
qed

theorem get_active_correct_witness:
  "sorted_by_start [\<lparr>start = 1, end' = 3, text' = ''a''\<rparr>, \<lparr>start = 2, end' = 6, text' = ''b''\<rparr>,
                    \<lparr>start = 5, end' = 7, text' = ''c''\<rparr>] \<and>
   latest_started [\<lparr>start = 1, end' = 3, text' = ''a''\<rparr>, \<lparr>start = 2, end' = 6, text' = ''b''\<rparr>,
                   \<lparr>start = 5, end' = 7, text' = ''c''\<rparr>] 4 = Some \<lparr>start = 2, end' = 6, text' = ''b''\<rparr> \<and>
   get_active [\<lparr>start = 1, end' = 3, text' = ''a''\<rparr>, \<lparr>start = 2, end' = 6, text' = ''b''\<rparr>,
               \<lparr>start = 5, end' = 7, text' = ''c''\<rparr>] 4 = ''b'' \<and>
   get_active [\<lparr>start = 2, end' = 6, text' = ''b''\<rparr>] 4 = ''b'' \<and>
   get_active [\<lparr>start = 2, end' = 6, text' = ''b''\<rparr>] 6 = []"
proof -
  let ?b = "\<lparr>start = 2, end' = 6, text' = ''b''\<rparr>"
  let ?es = "[\<lparr>start = 1, end' = 3, text' = ''a''\<rparr>, ?b, \<lparr>start = 5, end' = 7, text' = ''c''\<rparr>]"
  have s: "sorted_by_start ?es" by (simp add: sorted_by_start_def)
  have l: "latest_started ?es 4 = Some ?b" by (simp add: latest_started_def)
  have h: "start ?b \<le> 4 \<and> 4 < end' ?b" by simp
  note c = get_active_correct [OF s, of 4 ?b]
  have g: "get_active ?es 4 = ''b''" using c l by simp
  have g1: "get_active [?b] 4 = ''b''" using c h by simp
  note c6 = get_active_correct [OF s, of 6 ?b]
  have g2: "get_active [?b] 6 = []" using c6 by simp
  show ?thesis using s l g g1 g2 by blast
qed

text \<open>
  The lookup part of claim C2 as first stated, without a condition on the end of the
  entry starting at 5, fails when that entry is over before time 6: with the entries
  (5, 5.5), (2, 3), (8, 9) inserted in that order the store is ordered 2, 5, 8 and
  \<^verbatim>\<open>get_active(6)\<close> is the empty string, not the text of the entry starting at 5.
\<close>

theorem add_ffmpeg_entry_lookup_counterexample:
  "add_ffmpeg_entry 8 9 ''z'' (add_ffmpeg_entry 2 3 ''y'' (add_ffmpeg_entry 5 (11 / 2) ''x'' [])) =
     [\<lparr>start = 2, end' = 3, text' = ''y''\<rparr>, \<lparr>start = 5, end' = 11 / 2, text' = ''x''\<rparr>,
      \<lparr>start = 8, end' = 9, text' = ''z''\<rparr>] \<and>
   get_active (add_ffmpeg_entry 8 9 ''z'' (add_ffmpeg_entry 2 3 ''y''
                 (add_ffmpeg_entry 5 (11 / 2) ''x'' []))) 6 = [] \<and>
   get_active (add_ffmpeg_entry 8 9 ''z'' (add_ffmpeg_entry 2 3 ''y''
                 (add_ffmpeg_entry 5 (11 / 2) ''x'' []))) 6 \<noteq> ''x''"
proof -
  have a: "add_ffmpeg_entry 8 9 ''z'' (add_ffmpeg_entry 2 3 ''y''
             (add_ffmpeg_entry 5 (11 / 2) ''x'' [])) =
           [\<lparr>start = 2, end' = 3, text' = ''y''\<rparr>, \<lparr>start = 5, end' = 11 / 2, text' = ''x''\<rparr>,
            \<lparr>start = 8, end' = 9, text' = ''z''\<rparr>]"
    by code_simp
  have g: "get_active [\<lparr>start = 2, end' = 3, text' = ''y''\<rparr>,
                       \<lparr>start = 5, end' = 11 / 2, text' = ''x''\<rparr>,
                       \<lparr>start = 8, end' = 9, text' = ''z''\<rparr>] 6 = []"
    by code_simp
  show ?thesis unfolding a g by simp
qed

text \<open>
  Claim C2, amended. On a store ordered by \<open>start\<close>, \<^verbatim>\<open>add_ffmpeg_entry\<close> with text that
  does not clean to the empty string inserts exactly one entry, after the entries that
  start earlier and before those that start at the same time or later, and the store
  stays ordered. Inserting start times 5, 2, 8 in that order into the empty store gives the
  order 2, 5, 8, and \<^verbatim>\<open>get_active(6)\<close> is then the text of the entry starting at 5 when the
  \<open>end\<close> of that entry lies after 6, and the empty string when it does not.
\<close>

theorem add_ffmpeg_entry_sorted:
  assumes "sorted_by_start es" "clean_text raw \<noteq> []"
    and "clean_text r1 \<noteq> []" "clean_text r2 \<noteq> []" "clean_text r3 \<noteq> []"
  shows "add_ffmpeg_entry s e raw es =
           filter (\<lambda>x. start x < s) es @
           \<lparr>start = s, end' = e, text' = clean_text raw\<rparr> # filter (\<lambda>x. s \<le> start x) es \<and>
         length (add_ffmpeg_entry s e raw es) = length es + 1 \<and>
         sorted_by_start (add_ffmpeg_entry s e raw es) \<and>
         add_ffmpeg_entry 8 e3 r3 (add_ffmpeg_entry 2 e2 r2 (add_ffmpeg_entry 5 e1 r1 [])) =
           [\<lparr>start = 2, end' = e2, text' = clean_text r2\<rparr>,
            \<lparr>start = 5, end' = e1, text' = clean_text r1\<rparr>,
            \<lparr>start = 8, end' = e3, text' = clean_text r3\<rparr>] \<and>
         (6 < e1 \<longrightarrow>
            get_active (add_ffmpeg_entry 8 e3 r3 (add_ffmpeg_entry 2 e2 r2
                          (add_ffmpeg_entry 5 e1 r1 []))) 6 = clean_text r1) \<and>
         (e1 \<le> 6 \<longrightarrow>
            get_active (add_ffmpeg_entry 8 e3 r3 (add_ffmpeg_entry 2 e2 r2
                          (add_ffmpeg_entry 5 e1 r1 []))) 6 = [])"
proof -
  let ?x1 = "\<lparr>start = 5, end' = e1, text' = clean_text r1\<rparr>"
  let ?x2 = "\<lparr>start = 2, end' = e2, text' = clean_text r2\<rparr>"
  let ?x3 = "\<lparr>start = 8, end' = e3, text' = clean_text r3\<rparr>"
  note eq = add_ffmpeg_entry_filter [OF assms(1,2), of s e]
  have len: "length (add_ffmpeg_entry s e raw es) = length es + 1"
    unfolding eq using length_filter_split [of s es] by simp
  have srt: "sorted_by_start (add_ffmpeg_entry s e raw es)"
    unfolding eq by (rule sorted_by_start_around [OF assms(1)]) simp
  have s0: "sorted_by_start []" by (simp add: sorted_by_start_def)
  have a1: "add_ffmpeg_entry 5 e1 r1 [] = [?x1]"
    using add_ffmpeg_entry_filter [OF s0 assms(3), of 5 e1] by simp
  have s1: "sorted_by_start [?x1]" by (simp add: sorted_by_start_def)
  have a2: "add_ffmpeg_entry 2 e2 r2 [?x1] = [?x2, ?x1]"
    using add_ffmpeg_entry_filter [OF s1 assms(4), of 2 e2] by simp
  have s2: "sorted_by_start [?x2, ?x1]" by (simp add: sorted_by_start_def)
  have a3: "add_ffmpeg_entry 8 e3 r3 [?x2, ?x1] = [?x2, ?x1, ?x3]"
    using add_ffmpeg_entry_filter [OF s2 assms(5), of 8 e3] by simp
  have s3: "sorted_by_start [?x2, ?x1, ?x3]" by (simp add: sorted_by_start_def)
  have g: "6 < e1 \<longrightarrow> get_active [?x2, ?x1, ?x3] 6 = clean_text r1"
    "e1 \<le> 6 \<longrightarrow> get_active [?x2, ?x1, ?x3] 6 = []"
    using get_active_latest [OF s3, of 6] by (simp_all add: latest_started_def)
  show ?thesis
    unfolding a1 a2 a3 using eq len srt g by simp
qed

theorem add_ffmpeg_entry_sorted_witness:
  "sorted_by_start [\<lparr>start = 1, end' = 2, text' = ''a''\<rparr>, \<lparr>start = 5, end' = 6, text' = ''b''\<rparr>] \<and>
   clean_text ''<i>hi</i>'' = ''hi'' \<and>
   add_ffmpeg_entry 3 4 ''<i>hi</i>''
     [\<lparr>start = 1, end' = 2, text' = ''a''\<rparr>, \<lparr>start = 5, end' = 6, text' = ''b''\<rparr>] =
     [\<lparr>start = 1, end' = 2, text' = ''a''\<rparr>, \<lparr>start = 3, end' = 4, text' = ''hi''\<rparr>,
      \<lparr>start = 5, end' = 6, text' = ''b''\<rparr>] \<and>
   add_ffmpeg_entry 8 11 ''z'' (add_ffmpeg_entry 2 5 ''y'' (add_ffmpeg_entry 5 8 ''x'' [])) =
     [\<lparr>start = 2, end' = 5, text' = ''y''\<rparr>, \<lparr>start = 5, end' = 8, text' = ''x''\<rparr>,
      \<lparr>start = 8, end' = 11, text' = ''z''\<rparr>] \<and>
   get_active (add_ffmpeg_entry 8 11 ''z'' (add_ffmpeg_entry 2 5 ''y''
                 (add_ffmpeg_entry 5 8 ''x'' []))) 6 = ''x''"
proof -
  let ?es = "[\<lparr>start = 1, end' = 2, text' = ''a''\<rparr>, \<lparr>start = 5, end' = 6, text' = ''b''\<rparr>]"
  have s: "sorted_by_start ?es" by (simp add: sorted_by_start_def)
  have c: "clean_text ''<i>hi</i>'' = ''hi''" "clean_text ''x'' = ''x''"
    "clean_text ''y'' = ''y''" "clean_text ''z'' = ''z''"
    by code_simp+
  have ne: "clean_text ''<i>hi</i>'' \<noteq> []" "clean_text ''x'' \<noteq> []"
    "clean_text ''y'' \<noteq> []" "clean_text ''z'' \<noteq> []"
    unfolding c by simp_all
  have h: "(6::real) < 8" by simp
  note t = add_ffmpeg_entry_sorted [OF s ne, of 3 4 11 5 8, unfolded c]
  have e1: "add_ffmpeg_entry 3 4 ''<i>hi</i>'' ?es =
              [\<lparr>start = 1, end' = 2, text' = ''a''\<rparr>, \<lparr>start = 3, end' = 4, text' = ''hi''\<rparr>,
               \<lparr>start = 5, end' = 6, text' = ''b''\<rparr>]"
    using t by simp
  have e2: "add_ffmpeg_entry 8 11 ''z'' (add_ffmpeg_entry 2 5 ''y'' (add_ffmpeg_entry 5 8 ''x'' [])) =
              [\<lparr>start = 2, end' = 5, text' = ''y''\<rparr>, \<lparr>start = 5, end' = 8, text' = ''x''\<rparr>,
               \<lparr>start = 8, end' = 11, text' = ''z''\<rparr>]"
    using t by blast
  have e3: "get_active (add_ffmpeg_entry 8 11 ''z'' (add_ffmpeg_entry 2 5 ''y''
                 (add_ffmpeg_entry 5 8 ''x'' []))) 6 = ''x''"
    using t h by blast
  show ?thesis using s c(1) e1 e2 e3 by blast
qed

section \<open>Properties of the loaders\<close>


lemma find_char_append:
  "x \<notin> set f \<Longrightarrow> find_char x (f @ x # r) = Some (length f)"
  by (induction f) auto

lemma split_fields_join:
  "length fs = n \<Longrightarrow> \<forall>f \<in> set fs. CHR '','' \<notin> set f \<Longrightarrow>
   split_fields n (join_fields fs txt) = fs @ [txt]"
proof (induction fs arbitrary: n)
  case Nil
  then show ?case by (simp add: join_fields_def)
next
  case (Cons f fs)
  then obtain m where n: "n = Suc m" "length fs = m" by (cases n) auto
  have nc: "CHR '','' \<notin> set f" using Cons.prems(2) by simp
  have j: "join_fields (f # fs) txt = f @ CHR '','' # join_fields fs txt"
    by (simp add: join_fields_def)
  have "split_fields m (join_fields fs txt) = fs @ [txt]"
    using Cons.IH [OF n(2)] Cons.prems(2) by simp
  then show ?case
    unfolding n(1) j by (simp add: find_char_append [OF nc] substr_def)
qed

lemma ass_dialogue_join:
  assumes "length fs = text_col_idx st" "3 \<le> text_col_idx st"
    "\<forall>f \<in> set fs. CHR '','' \<notin> set f"
  shows "ass_entries (ass_dialogue st (join_fields fs txt)) =
           ass_entries st @
           (if clean_text txt = [] then []
            else [\<lparr>start = parse_ass_time (trim_chars ws_blank (fs ! 1)),
                   end' = parse_ass_time (trim_chars ws_blank (fs ! 2)),
                   text' = clean_text txt\<rparr>])"
proof -
  have sp: "split_fields (text_col_idx st) (join_fields fs txt) = fs @ [txt]"
    using assms(1,3) by (rule split_fields_join)
  have t1: "trim_time_fields (fs @ [txt]) ! 1 = trim_chars ws_blank (fs ! 1)"
    and t2: "trim_time_fields (fs @ [txt]) ! 2 = trim_chars ws_blank (fs ! 2)"
    and t3: "trim_time_fields (fs @ [txt]) ! text_col_idx st = txt"
    using assms(1,2) by (simp_all add: trim_time_fields_def Let_def nth_append)
  show ?thesis
    using assms(1,2) t1 t2 t3 by (simp add: ass_dialogue_def sp Let_def)
qed

lemma flush_drops_empty:
  "clean_text (text_buf st) = [] \<Longrightarrow> entries (flush st) = entries st"
  by (simp add: flush_def Let_def)

lemma ass_dialogue_drops_empty:
  "clean_text (trim_time_fields (split_fields (text_col_idx st) data) ! text_col_idx st) = [] \<Longrightarrow>
   ass_dialogue st data = st"
  by (simp add: ass_dialogue_def Let_def)

lemma add_ffmpeg_entry_empty:
  "clean_text raw = [] \<Longrightarrow> add_ffmpeg_entry s e raw tr = tr"
  by (simp add: add_ffmpeg_entry_def)

lemma flush_texts: "texts_nonempty (entries st) \<Longrightarrow> texts_nonempty (entries (flush st))"
  by (simp add: flush_def Let_def texts_nonempty_def)

lemma srt_line_texts:
  "texts_nonempty (entries st) \<Longrightarrow> texts_nonempty (entries (srt_line st l))"
  using flush_texts [of st]
  by (simp add: srt_line_def Let_def split: option.splits)

lemma srt_fold_texts:
  "texts_nonempty (entries st) \<Longrightarrow> texts_nonempty (entries (foldl srt_line st ls))"
  by (induction ls arbitrary: st) (simp_all add: srt_line_texts)

lemma load_srt_texts: "texts_nonempty (snd (load_srt (Some content) tr))"
proof -
  have "texts_nonempty (entries srt_init)" by (simp add: srt_init_def texts_nonempty_def)
  then show ?thesis
    by (simp add: load_srt_def Let_def flush_texts srt_fold_texts)
qed

lemma ass_dialogue_texts:
  "texts_nonempty (ass_entries st) \<Longrightarrow> texts_nonempty (ass_entries (ass_dialogue st d))"
  by (simp add: ass_dialogue_def Let_def texts_nonempty_def)

lemma ass_line_texts:
  "texts_nonempty (ass_entries st) \<Longrightarrow> texts_nonempty (ass_entries (ass_line st l))"
  using ass_dialogue_texts [of st]
  by (simp add: ass_line_def Let_def)

lemma ass_fold_texts:
  "texts_nonempty (ass_entries st) \<Longrightarrow> texts_nonempty (ass_entries (foldl ass_line st ls))"
  by (induction ls arbitrary: st) (simp_all add: ass_line_texts)

lemma load_ass_texts: "texts_nonempty (snd (load_ass (Some content) tr))"
proof -
  have "texts_nonempty (ass_entries ass_init)" by (simp add: ass_init_def texts_nonempty_def)
  then have "texts_nonempty (ass_entries (foldl ass_line ass_init (getlines (CHR 0x0A) content)))"
    by (rule ass_fold_texts)
  then show ?thesis
    by (simp add: load_ass_def Let_def sort_entries_def texts_nonempty_def list_all_iff)
qed

lemma add_ffmpeg_entry_texts:
  "texts_nonempty tr \<Longrightarrow> texts_nonempty (add_ffmpeg_entry s e raw tr)"
  by (auto simp: add_ffmpeg_entry_def Let_def insert_at_def texts_nonempty_def list_all_iff
           dest: in_set_takeD in_set_dropD)

text \<open>
  Claim C3. Loading the lines \<^verbatim>\<open>[Events]\<close>, the \<^verbatim>\<open>Format:\<close> line with \<^verbatim>\<open>Text\<close> as tenth
  field and the \<^verbatim>\<open>Dialogue:\<close> line whose text is \<^verbatim>\<open>Hi, there\<close> yields exactly one entry,
  from 1.0 to 3.5 with the text \<^verbatim>\<open>Hi, there\<close>. In general the splitting loop cuts a data
  string into its \<open>n\<close> leading comma-free columns and gives the whole rest of the line,
  commas included, to the text column; the entry stored for a dialogue line carries the
  cleaned text column.
\<close>


theorem load_ass_text_column:
  "load_ass (Some ass_example) tr =
     (True, [\<lparr>start = 1, end' = 3.5, text' = ''Hi, there''\<rparr>]) \<and>
   (length fs = n \<and> (\<forall>f \<in> set fs. CHR '','' \<notin> set f) \<longrightarrow>
      split_fields n (join_fields fs txt) = fs @ [txt]) \<and>
   (length fs = text_col_idx st \<and> 3 \<le> text_col_idx st \<and> (\<forall>f \<in> set fs. CHR '','' \<notin> set f) \<longrightarrow>
      ass_entries (ass_dialogue st (join_fields fs txt)) =
        ass_entries st @
        (if clean_text txt = [] then []
         else [\<lparr>start = parse_ass_time (trim_chars ws_blank (fs ! 1)),
                end' = parse_ass_time (trim_chars ws_blank (fs ! 2)),
                text' = clean_text txt\<rparr>]))"
proof (intro conjI impI)
  have "load_ass (Some ass_example) tr =
          (True, [\<lparr>start = 1, end' = 7 / 2, text' = ''Hi, there''\<rparr>])"
    by code_simp
  then show "load_ass (Some ass_example) tr =
          (True, [\<lparr>start = 1, end' = 3.5, text' = ''Hi, there''\<rparr>])"
    by simp
next
  assume "length fs = n \<and> (\<forall>f \<in> set fs. CHR '','' \<notin> set f)"
  then show "split_fields n (join_fields fs txt) = fs @ [txt]"
    using split_fields_join by blast
next
  assume "length fs = text_col_idx st \<and> 3 \<le> text_col_idx st \<and> (\<forall>f \<in> set fs. CHR '','' \<notin> set f)"
  then show "ass_entries (ass_dialogue st (join_fields fs txt)) =
        ass_entries st @
        (if clean_text txt = [] then []
         else [\<lparr>start = parse_ass_time (trim_chars ws_blank (fs ! 1)),
                end' = parse_ass_time (trim_chars ws_blank (fs ! 2)),
                text' = clean_text txt\<rparr>])"
    using ass_dialogue_join by blast
qed

theorem load_ass_text_column_witness:
  "join_fields ['' 0'', ''0:00:01.00'', ''0:00:03.50''] ''Hi, there, you'' =
     '' 0,0:00:01.00,0:00:03.50,Hi, there, you'' \<and>
   split_fields 3 '' 0,0:00:01.00,0:00:03.50,Hi, there, you'' =
     ['' 0'', ''0:00:01.00'', ''0:00:03.50'', ''Hi, there, you''] \<and>
   ass_entries (ass_dialogue \<lparr>ass_entries = [], in_events = True, text_col_idx = 3\<rparr>
                  '' 0,0:00:01.00,0:00:03.50,Hi, there, you'') =
     [\<lparr>start = 1, end' = 3.5, text' = ''Hi, there, you''\<rparr>]"
proof -
  let ?fs = "['' 0'', ''0:00:01.00'', ''0:00:03.50'']"
  let ?st = "\<lparr>ass_entries = [], in_events = True, text_col_idx = 3\<rparr>"
  have j: "join_fields ?fs ''Hi, there, you'' = '' 0,0:00:01.00,0:00:03.50,Hi, there, you''"
    by (simp add: join_fields_def)
  have h: "length ?fs = 3 \<and> (\<forall>f \<in> set ?fs. CHR '','' \<notin> set f)" by simp
  have h2: "length ?fs = text_col_idx ?st \<and> 3 \<le> text_col_idx ?st \<and>
            (\<forall>f \<in> set ?fs. CHR '','' \<notin> set f)" by simp
  have v: "clean_text ''Hi, there, you'' = ''Hi, there, you''"
    "parse_ass_time (trim_chars ws_blank ''0:00:01.00'') = 1"
    "parse_ass_time (trim_chars ws_blank ''0:00:03.50'') = 7 / 2"
    by code_simp+
  note t = load_ass_text_column [of _ ?fs 3 "''Hi, there, you''" ?st, unfolded j]
  have a: "split_fields 3 '' 0,0:00:01.00,0:00:03.50,Hi, there, you'' =
             ?fs @ [''Hi, there, you'']"
    using t h by blast
  have b: "ass_entries (ass_dialogue ?st '' 0,0:00:01.00,0:00:03.50,Hi, there, you'') =
           ass_entries ?st @
        (if clean_text ''Hi, there, you'' = [] then []
         else [\<lparr>start = parse_ass_time (trim_chars ws_blank (?fs ! 1)),
                end' = parse_ass_time (trim_chars ws_blank (?fs ! 2)),
                text' = clean_text ''Hi, there, you''\<rparr>])"
    using t h2 by blast
  have b': "ass_entries (ass_dialogue ?st '' 0,0:00:01.00,0:00:03.50,Hi, there, you'') =
              [\<lparr>start = 1, end' = 3.5, text' = ''Hi, there, you''\<rparr>]"
    unfolding b by (simp add: v)
  show ?thesis using j a b' by simp
qed

text \<open>
  Claim C4. Loading the single SRT block yields exactly one entry, from 1.0 to 4.0 with
  the text \<^verbatim>\<open>Hello\<close>. The loader returns true exactly when the entries it accepted, which
  are the whole store after the call whatever the store held before, are not empty; a
  file that cannot be opened returns false and leaves the store as it was.
\<close>


theorem load_srt_single_block:
  "load_srt (Some srt_example) tr = (True, [\<lparr>start = 1, end' = 4, text' = ''Hello''\<rparr>]) \<and>
   fst (load_srt (Some content) tr) = (snd (load_srt (Some content) tr) \<noteq> []) \<and>
   snd (load_srt (Some content) tr) = snd (load_srt (Some content) []) \<and>
   load_srt None tr = (False, tr)"
proof -
  have "load_srt (Some srt_example) tr = (True, [\<lparr>start = 1, end' = 4, text' = ''Hello''\<rparr>])"
    by code_simp
  then show ?thesis by (simp add: load_srt_def Let_def)
qed

text \<open>
  Claim C8. An entry whose text cleans to the empty string is never stored: the flush of
  the SRT loader and the dialogue handling of the ASS loader leave the entries unchanged,
  \<^verbatim>\<open>add_ffmpeg_entry\<close> returns the store unchanged, and no entry of a loaded or live-fed
  store has an empty text. All three are total functions without an error result.
\<close>


theorem empty_text_never_stored:
  "(clean_text (text_buf st) = [] \<longrightarrow> entries (flush st) = entries st) \<and>
   (clean_text (trim_time_fields (split_fields (text_col_idx ast) data) ! text_col_idx ast) = [] \<longrightarrow>
      ass_dialogue ast data = ast) \<and>
   (clean_text raw = [] \<longrightarrow> add_ffmpeg_entry s e raw tr = tr) \<and>
   (\<forall>x \<in> set (snd (load_srt (Some srt_content) tr0)). text' x \<noteq> []) \<and>
   (\<forall>x \<in> set (snd (load_ass (Some ass_content) tr1)). text' x \<noteq> []) \<and>
   ((\<forall>x \<in> set tr. text' x \<noteq> []) \<longrightarrow> (\<forall>x \<in> set (add_ffmpeg_entry s e raw tr). text' x \<noteq> []))"
  using flush_drops_empty [of st] ass_dialogue_drops_empty [of ast data]
    add_ffmpeg_entry_empty [of raw s e tr] load_srt_texts [of srt_content tr0]
    load_ass_texts [of ass_content tr1] add_ffmpeg_entry_texts [of tr s e raw]
  unfolding texts_nonempty_def list_all_iff by blast

section \<open>Properties of the players\<close>


lemma get_active_Nil: "get_active [] t = []"
  by (simp add: get_active_def)

lemma load_srt_fail: "\<not> fst (load_srt f []) \<Longrightarrow> snd (load_srt f []) = []"
  by (cases f) (simp_all add: load_srt_def Let_def)

lemma load_ass_fail: "\<not> fst (load_ass f []) \<Longrightarrow> snd (load_ass f []) = []"
  by (cases f) (simp_all add: load_ass_def Let_def)

lemma load_file_loop_fail:
  "\<not> fst (load_file_loop files exts []) \<Longrightarrow> snd (load_file_loop files exts []) = []"
proof (induction exts)
  case Nil
  then show ?case by simp
next
  case (Cons ext exts)
  show ?case
  proof (cases "files ext")
    case None
    then show ?thesis using Cons by simp
  next
    case (Some content)
    let ?r = "if ext = ''.srt'' then load_srt (Some content) [] else load_ass (Some content) []"
    have nf: "\<not> fst ?r" using Cons.prems Some by (auto simp: Let_def split: if_splits)
    then have "snd ?r = []"
      using load_srt_fail [of "Some content"] load_ass_fail [of "Some content"]
      by (auto split: if_splits)
    then show ?thesis using Cons Some nf by (auto simp: Let_def split: if_splits)
  qed
qed

text \<open>
  Claim C5. When the decode loop services a pending seek, the subtitle store is emptied
  if the subtitle source is the embedded stream and left exactly as it is otherwise: after
  \<^verbatim>\<open>seek(T)\<close> and the seek branch, every lookup returns the empty string in the embedded
  case and the same text as before in the external case. The constructor sets the
  embedded flag only when no external file was loaded, and then the store is empty.
\<close>


theorem seek_clears_embedded_only:
  "subtitle_track (decode_loop_seek now (seek T p)) =
     (if use_embedded_sub p then [] else subtitle_track p) \<and>
   (use_embedded_sub p \<longrightarrow> get_active (subtitle_track (decode_loop_seek now (seek T p))) t = []) \<and>
   (\<not> use_embedded_sub p \<longrightarrow>
      get_active (subtitle_track (decode_loop_seek now (seek T p))) t =
      get_active (subtitle_track p) t) \<and>
   (0 \<le> seek_target p \<longrightarrow>
      subtitle_track (decode_loop_seek now p) =
        (if use_embedded_sub p then [] else subtitle_track p) \<and>
      use_embedded_sub (decode_loop_seek now p) = use_embedded_sub p \<and>
      seek_target (decode_loop_seek now p) = - 1 \<and>
      cur_pts (decode_loop_seek now p) = seek_target p) \<and>
   (seek_target p < 0 \<longrightarrow> decode_loop_seek now p = p) \<and>
   (fst (load_file files (subtitle_track p)) \<longrightarrow>
      \<not> use_embedded_sub (init_subtitles files best p) \<and>
      subtitle_track (init_subtitles files best p) = snd (load_file files (subtitle_track p))) \<and>
   (\<not> fst (load_file files (subtitle_track p)) \<and> 0 \<le> best \<longrightarrow>
      use_embedded_sub (init_subtitles files best p)) \<and>
   (\<not> fst (load_file files (subtitle_track p)) \<and> subtitle_track p = [] \<longrightarrow>
      subtitle_track (init_subtitles files best p) = [])"
proof -
  have lf: "\<not> fst (load_file files []) \<Longrightarrow> snd (load_file files []) = []"
    unfolding load_file_def by (rule load_file_loop_fail)
  have "\<not> fst (load_file files (subtitle_track p)) \<and> subtitle_track p = [] \<longrightarrow>
      subtitle_track (init_subtitles files best p) = []"
    using lf by (auto simp: init_subtitles_def Let_def)
  then show ?thesis
    by (simp add: decode_loop_seek_def seek_def clear_def get_active_Nil init_subtitles_def
        Let_def)
qed

text \<open>
  Claim C9 as first stated, with the split "length at most 0: result 0; otherwise: the
  quotient", fails for a NaN length: NaN is not at most 0, and the result is 0, not the
  quotient (which would be NaN).
\<close>

theorem get_progress_nan_counterexample:
  "\<not> double_le NaN (Finite 0) \<and>
   get_progress Finite Finite (Finite 1) NaN = Some (Finite 0) \<and>
   map_option (to_float Finite) (checked_div Finite (Finite 1) NaN) = Some NaN \<and>
   get_progress Finite Finite (Finite 1) NaN \<noteq>
     map_option (to_float Finite) (checked_div Finite (Finite 1) NaN)"
  by (simp add: get_progress_def)

text \<open>
  Claim C9, amended. \<^verbatim>\<open>get_progress\<close> never divides by zero or by a non-positive length:
  when the length is greater than 0 it returns the quotient of position and length,
  converted to \<^verbatim>\<open>float\<close>; in every other case, that is for a length of at most 0 and also
  for a NaN length, it returns exactly 0. The division is reached with a positive divisor
  only.
\<close>

theorem get_progress_guarded:
  "get_progress rnd rnd32 position len \<noteq> None \<and>
   (double_less (Finite 0) len \<longrightarrow>
      checked_div rnd position len \<noteq> None \<and>
      get_progress rnd rnd32 position len =
        map_option (to_float rnd32) (checked_div rnd position len)) \<and>
   (\<not> double_less (Finite 0) len \<longrightarrow> get_progress rnd rnd32 position len = Some (Finite 0)) \<and>
   (double_le len (Finite 0) \<longrightarrow> get_progress rnd rnd32 position len = Some (Finite 0)) \<and>
   get_progress rnd rnd32 position NaN = Some (Finite 0) \<and>
   (0 < y \<longrightarrow>
      get_progress rnd rnd32 (Finite x) (Finite y) = Some (to_float rnd32 (rnd (x / y))))"
proof -
  have le: "double_le len (Finite 0) \<Longrightarrow> \<not> double_less (Finite 0) len"
    by (cases len) auto
  have dv: "double_less (Finite 0) len \<Longrightarrow> checked_div rnd position len \<noteq> None"
    by (cases len; cases position) auto
  show ?thesis
    using le dv by (auto simp: get_progress_def)
qed

theorem get_progress_guarded_witness:
  "double_less (Finite 0) (Finite 4) \<and>
   get_progress Finite Finite (Finite 3) (Finite 4) = Some (Finite (3 / 4)) \<and>
   double_le (Finite (- 1)) (Finite 0) \<and>
   get_progress Finite Finite (Finite 3) (Finite (- 1)) = Some (Finite 0) \<and>
   get_progress Finite Finite (Finite 3) (Finite 0) = Some (Finite 0) \<and>
   get_progress Finite Finite (Finite 3) NaN = Some (Finite 0)"
proof -
  have h: "double_less (Finite 0) (Finite 4)" "double_le (Finite (- 1)) (Finite 0)"
    "\<not> double_less (Finite 0) (Finite 0)" "(0 :: real) < 4"
    by simp_all
  have a: "get_progress Finite Finite (Finite 3) (Finite 4) =
           Some (to_float Finite (Finite (3 / 4)))"
    using get_progress_guarded [of Finite Finite "Finite 3" "Finite 4" 4 3] h(4) by blast
  have b: "get_progress Finite Finite (Finite 3) (Finite (- 1)) = Some (Finite 0)"
    using get_progress_guarded [of Finite Finite "Finite 3" "Finite (- 1)"] h(2) by blast
  have c: "get_progress Finite Finite (Finite 3) (Finite 0) = Some (Finite 0)"
    using get_progress_guarded [of Finite Finite "Finite 3" "Finite 0"] h(3) by blast
  have d: "get_progress Finite Finite (Finite 3) NaN = Some (Finite 0)"
    using get_progress_guarded [of Finite Finite "Finite 3"] by blast
  show ?thesis using h a b c d by simp
qed

lemma int32_id: "- (2 ^ 31) \<le> x \<Longrightarrow> x < 2 ^ 31 \<Longrightarrow> int32 x = x"
  by (simp add: int32_def)

lemma smod_bounds:
  fixes x c :: int
  assumes "0 < c"
  shows "- c < x smod c \<and> x smod c < c"
proof -
  define r where "r = \<bar>x\<bar> mod c"
  have r: "0 \<le> r" "r < c" unfolding r_def using assms by simp_all
  have "x smod c = sgn x * r" using assms by (simp add: signed_modulo_int_def r_def)
  then show ?thesis using r assms by (cases "x < 0"; cases "x = 0") (simp_all add: sgn_if)
qed

lemma smod_nonneg:
  fixes a c :: int
  shows "0 \<le> a \<Longrightarrow> 0 < c \<Longrightarrow> a smod c = a mod c"
  by (auto simp: signed_modulo_int_def sgn_if)

lemma smod_plus_mod:
  fixes x c :: int
  assumes "0 < c"
  shows "(x smod c + c) mod c = x mod c"
proof (cases "sgn x \<noteq> sgn c \<and> \<not> c dvd x")
  case True
  then have "x smod c = x mod c - c"
    using signed_modulo_int_eq_modulo_int [of x c] by simp
  then show ?thesis by simp
next
  case False
  then have "x smod c = x mod c"
    using signed_modulo_int_eq_modulo_int [of x c] by auto
  then show ?thesis by simp
qed

lemma seek_frames_idx:
  assumes "is_animated ip" "anim_frames ip \<noteq> []" "length (anim_frames ip) \<le> 2 ^ 30"
  shows "anim_frame_idx (seek_frames now delta ip) =
           (int32 (anim_frame_idx ip + delta) smod int (length (anim_frames ip)) +
            int (length (anim_frames ip))) smod int (length (anim_frames ip))"
    and "anim_frame_idx (seek_frames now delta ip) =
           int32 (anim_frame_idx ip + delta) mod int (length (anim_frames ip))"
proof -
  let ?c = "int (length (anim_frames ip))"
  let ?x = "int32 (anim_frame_idx ip + delta)"
  have c: "0 < ?c" "?c \<le> 2 ^ 30" using assms(2,3) by simp_all
  then have ic: "int32 ?c = ?c" by (intro int32_id) simp_all
  from smod_bounds [OF c(1), of ?x] have b: "0 < ?x smod ?c + ?c" "?x smod ?c + ?c < 2 * ?c"
    by simp_all
  then have iw: "int32 (?x smod ?c + ?c) = ?x smod ?c + ?c"
    using c(2) by (intro int32_id) simp_all
  show e1: "anim_frame_idx (seek_frames now delta ip) = (?x smod ?c + ?c) smod ?c"
    using assms(1,2) by (simp add: seek_frames_def Let_def ic iw)
  have "(?x smod ?c + ?c) smod ?c = (?x smod ?c + ?c) mod ?c"
    using b(1) c(1) by (intro smod_nonneg) simp_all
  also have "\<dots> = ?x mod ?c" using c(1) by (rule smod_plus_mod)
  finally show "anim_frame_idx (seek_frames now delta ip) = ?x mod ?c"
    using e1 by simp
qed

text \<open>
  Claim C10. On an animated player with at least one and at most \<open>2^30\<close> frames,
  \<^verbatim>\<open>seek_frames(delta)\<close> sets the frame index to
  \<^verbatim>\<open>((old + delta) % count + count) % count\<close>, which lies in \<open>[0, count)\<close> for every \<open>delta\<close>
  (also where the 32-bit sum wraps around) and is \<open>(old + delta) mod count\<close> when the sum
  does not overflow; on a player that is not animated or has no frame the call changes
  nothing.
\<close>

theorem seek_frames_in_range:
  "(is_animated ip \<and> anim_frames ip \<noteq> [] \<and> length (anim_frames ip) \<le> 2 ^ 30 \<longrightarrow>
      anim_frame_idx (seek_frames now delta ip) =
        (int32 (anim_frame_idx ip + delta) smod int (length (anim_frames ip)) +
         int (length (anim_frames ip))) smod int (length (anim_frames ip)) \<and>
      0 \<le> anim_frame_idx (seek_frames now delta ip) \<and>
      anim_frame_idx (seek_frames now delta ip) < int (length (anim_frames ip)) \<and>
      (- (2 ^ 31) \<le> anim_frame_idx ip + delta \<and> anim_frame_idx ip + delta < 2 ^ 31 \<longrightarrow>
         anim_frame_idx (seek_frames now delta ip) =
           ((anim_frame_idx ip + delta) smod int (length (anim_frames ip)) +
            int (length (anim_frames ip))) smod int (length (anim_frames ip)) \<and>
         anim_frame_idx (seek_frames now delta ip) =
           (anim_frame_idx ip + delta) mod int (length (anim_frames ip)))) \<and>
   (\<not> is_animated ip \<or> anim_frames ip = [] \<longrightarrow> seek_frames now delta ip = ip)"
proof (intro conjI impI)
  assume a: "is_animated ip \<and> anim_frames ip \<noteq> [] \<and> length (anim_frames ip) \<le> 2 ^ 30"
  then have a': "is_animated ip" "anim_frames ip \<noteq> []" "length (anim_frames ip) \<le> 2 ^ 30"
    by simp_all
  note e = seek_frames_idx [OF a', of now delta]
  show "anim_frame_idx (seek_frames now delta ip) =
        (int32 (anim_frame_idx ip + delta) smod int (length (anim_frames ip)) +
         int (length (anim_frames ip))) smod int (length (anim_frames ip))"
    by (rule e(1))
  have c: "0 < int (length (anim_frames ip))" using a'(2) by simp
  show "0 \<le> anim_frame_idx (seek_frames now delta ip)"
    unfolding e(2) using c by simp
  show "anim_frame_idx (seek_frames now delta ip) < int (length (anim_frames ip))"
    unfolding e(2) using c by simp
  assume r: "- (2 ^ 31) \<le> anim_frame_idx ip + delta \<and> anim_frame_idx ip + delta < 2 ^ 31"
  then have i: "int32 (anim_frame_idx ip + delta) = anim_frame_idx ip + delta"
    by (intro int32_id) simp_all
  show "anim_frame_idx (seek_frames now delta ip) =
           ((anim_frame_idx ip + delta) smod int (length (anim_frames ip)) +
            int (length (anim_frames ip))) smod int (length (anim_frames ip))"
    using e(1) unfolding i .
  show "anim_frame_idx (seek_frames now delta ip) =
           (anim_frame_idx ip + delta) mod int (length (anim_frames ip))"
    using e(2) unfolding i .
next
  assume "\<not> is_animated ip \<or> anim_frames ip = []"
  then show "seek_frames now delta ip = ip" by (auto simp: seek_frames_def)
qed

section \<open>Concrete instances of the conditional theorems\<close>


theorem seek_clears_embedded_only_witness:
  "subtitle_track (decode_loop_seek 5000000000
     \<lparr>subtitle_track = [\<lparr>start = 1, end' = 4, text' = ''Hello''\<rparr>], use_embedded_sub = True,
      subtitle_stream_idx = 2, seek_target = 10, cur_pts = 2, ended = False, start_ns = 0\<rparr>) = [] \<and>
   subtitle_track (decode_loop_seek 5000000000
     \<lparr>subtitle_track = [\<lparr>start = 1, end' = 4, text' = ''Hello''\<rparr>], use_embedded_sub = False,
      subtitle_stream_idx = - 1, seek_target = 10, cur_pts = 2, ended = False, start_ns = 0\<rparr>) =
     [\<lparr>start = 1, end' = 4, text' = ''Hello''\<rparr>] \<and>
   get_active (subtitle_track (decode_loop_seek 5000000000 (seek 10
     \<lparr>subtitle_track = [\<lparr>start = 1, end' = 4, text' = ''Hello''\<rparr>], use_embedded_sub = True,
      subtitle_stream_idx = 2, seek_target = - 1, cur_pts = 2, ended = False, start_ns = 0\<rparr>))) 2 = [] \<and>
   get_active (subtitle_track (decode_loop_seek 5000000000 (seek 10
     \<lparr>subtitle_track = [\<lparr>start = 1, end' = 4, text' = ''Hello''\<rparr>], use_embedded_sub = False,
      subtitle_stream_idx = - 1, seek_target = - 1, cur_pts = 2, ended = False, start_ns = 0\<rparr>))) 2 =
     ''Hello'' \<and>
   decode_loop_seek 5000000000
     \<lparr>subtitle_track = [\<lparr>start = 1, end' = 4, text' = ''Hello''\<rparr>], use_embedded_sub = True,
      subtitle_stream_idx = 2, seek_target = - 1, cur_pts = 2, ended = False, start_ns = 0\<rparr> =
     \<lparr>subtitle_track = [\<lparr>start = 1, end' = 4, text' = ''Hello''\<rparr>], use_embedded_sub = True,
      subtitle_stream_idx = 2, seek_target = - 1, cur_pts = 2, ended = False, start_ns = 0\<rparr> \<and>
   use_embedded_sub (init_subtitles (\<lambda>ext. None) 2
     \<lparr>subtitle_track = [], use_embedded_sub = False,
      subtitle_stream_idx = - 1, seek_target = - 1, cur_pts = 0, ended = False, start_ns = 0\<rparr>) \<and>
   \<not> use_embedded_sub (init_subtitles (\<lambda>ext. if ext = ''.srt'' then Some srt_example else None) 2
     \<lparr>subtitle_track = [], use_embedded_sub = False,
      subtitle_stream_idx = - 1, seek_target = - 1, cur_pts = 0, ended = False, start_ns = 0\<rparr>)"
proof -
  let ?tr = "[\<lparr>start = 1, end' = 4, text' = ''Hello''\<rparr>]"
  let ?pe = "\<lparr>subtitle_track = ?tr, use_embedded_sub = True,
      subtitle_stream_idx = 2, seek_target = 10, cur_pts = 2, ended = False, start_ns = 0\<rparr>"
  let ?px = "\<lparr>subtitle_track = ?tr, use_embedded_sub = False,
      subtitle_stream_idx = - 1, seek_target = 10, cur_pts = 2, ended = False, start_ns = 0\<rparr>"
  let ?qe = "\<lparr>subtitle_track = ?tr, use_embedded_sub = True,
      subtitle_stream_idx = 2, seek_target = - 1, cur_pts = 2, ended = False, start_ns = 0\<rparr>"
  let ?qx = "\<lparr>subtitle_track = ?tr, use_embedded_sub = False,
      subtitle_stream_idx = - 1, seek_target = - 1, cur_pts = 2, ended = False, start_ns = 0\<rparr>"
  let ?p0 = "\<lparr>subtitle_track = [], use_embedded_sub = False,
      subtitle_stream_idx = - 1, seek_target = - 1, cur_pts = 0, ended = False, start_ns = 0\<rparr>"
  let ?f0 = "\<lambda>ext :: string. None :: string option"
  let ?f1 = "\<lambda>ext. if ext = ''.srt'' then Some srt_example else None"
  have g: "get_active ?tr 2 = ''Hello''" by code_simp
  have l0: "\<not> fst (load_file ?f0 (subtitle_track ?p0))" by (simp add: load_file_def)
  have l1: "fst (load_file ?f1 (subtitle_track ?p0))" by code_simp
  have u: "use_embedded_sub ?pe" "\<not> use_embedded_sub ?px" "use_embedded_sub ?qe"
    "\<not> use_embedded_sub ?qx" "0 \<le> seek_target ?pe" "0 \<le> seek_target ?px"
    "seek_target ?qe < 0" "subtitle_track ?px = ?tr" "subtitle_track ?qx = ?tr"
    "(0 :: int) \<le> 2"
    by simp_all
  have c1: "subtitle_track (decode_loop_seek 5000000000 ?pe) = []"
    using seek_clears_embedded_only [of 5000000000 _ ?pe] by simp
  have c2: "subtitle_track (decode_loop_seek 5000000000 ?px) = ?tr"
    using seek_clears_embedded_only [of 5000000000 _ ?px] by simp
  have c3: "get_active (subtitle_track (decode_loop_seek 5000000000 (seek 10 ?qe))) 2 = []"
    using seek_clears_embedded_only [where now = 5000000000 and T = 10 and p = ?qe and t = 2]
      u(3) by blast
  have "get_active (subtitle_track (decode_loop_seek 5000000000 (seek 10 ?qx))) 2 =
        get_active (subtitle_track ?qx) 2"
    using seek_clears_embedded_only [where now = 5000000000 and T = 10 and p = ?qx and t = 2]
      u(4) by blast
  then have c4: "get_active (subtitle_track (decode_loop_seek 5000000000 (seek 10 ?qx))) 2 =
                 ''Hello''"
    unfolding u(9) g .
  have c5: "decode_loop_seek 5000000000 ?qe = ?qe"
    using seek_clears_embedded_only [where now = 5000000000 and p = ?qe] u(7) by blast
  have c6: "use_embedded_sub (init_subtitles ?f0 2 ?p0)"
    using seek_clears_embedded_only [where p = ?p0 and files = ?f0 and best = 2] l0 u(10)
    by blast
  have c7: "\<not> use_embedded_sub (init_subtitles ?f1 2 ?p0)"
    using seek_clears_embedded_only [where p = ?p0 and files = ?f1 and best = 2] l1 by blast
  show ?thesis using c1 c2 c3 c4 c5 c6 c7 by blast
qed

theorem empty_text_never_stored_witness:
  "clean_text ''<i> </i>'' = [] \<and>
   entries (flush \<lparr>entries = [\<lparr>start = 1, end' = 4, text' = ''Hello''\<rparr>],
                   cur = \<lparr>start = 5, end' = 6, text' = []\<rparr>,
                   text_buf = ''<i> </i>'', in_entry = True\<rparr>) =
     [\<lparr>start = 1, end' = 4, text' = ''Hello''\<rparr>] \<and>
   ass_dialogue \<lparr>ass_entries = [], in_events = True, text_col_idx = 3\<rparr>
      ''0,0:00:01.00,0:00:03.50,{x}'' =
     \<lparr>ass_entries = [], in_events = True, text_col_idx = 3\<rparr> \<and>
   add_ffmpeg_entry 2 3 ''<i> </i>'' [\<lparr>start = 1, end' = 4, text' = ''Hello''\<rparr>] =
     [\<lparr>start = 1, end' = 4, text' = ''Hello''\<rparr>] \<and>
   text' (hd (snd (load_srt (Some srt_example) []))) \<noteq> [] \<and>
   text' (hd (snd (load_ass (Some ass_example) []))) \<noteq> [] \<and>
   text' (hd (add_ffmpeg_entry 0 1 ''a'' [\<lparr>start = 1, end' = 4, text' = ''Hello''\<rparr>])) \<noteq> []"
proof -
  let ?h = "\<lparr>start = 1, end' = 4, text' = ''Hello''\<rparr>"
  let ?st = "\<lparr>entries = [?h], cur = \<lparr>start = 5, end' = 6, text' = []\<rparr>,
              text_buf = ''<i> </i>'', in_entry = True\<rparr>"
  let ?ast = "\<lparr>ass_entries = [], in_events = True, text_col_idx = 3\<rparr>"
  have e: "clean_text ''<i> </i>'' = []" by code_simp
  have e1: "clean_text (text_buf ?st) = []" using e by simp
  have e2: "clean_text (trim_time_fields
              (split_fields (text_col_idx ?ast) ''0,0:00:01.00,0:00:03.50,{x}'') !
              text_col_idx ?ast) = []"
    by code_simp
  have m1: "hd (snd (load_srt (Some srt_example) [])) \<in> set (snd (load_srt (Some srt_example) []))"
    by code_simp
  have m2: "hd (snd (load_ass (Some ass_example) [])) \<in> set (snd (load_ass (Some ass_example) []))"
    by code_simp
  have m3: "hd (add_ffmpeg_entry 0 1 ''a'' [?h]) \<in> set (add_ffmpeg_entry 0 1 ''a'' [?h])"
    by code_simp
  have h3: "\<forall>x \<in> set [?h]. text' x \<noteq> []" by simp
  note t = empty_text_never_stored [of ?st ?ast "''0,0:00:01.00,0:00:03.50,{x}''"
      "''<i> </i>''" 2 3 "[?h]" srt_example "[]" ass_example "[]"]
  have a1: "entries (flush ?st) = [?h]" using t e1 by simp
  have a2: "ass_dialogue ?ast ''0,0:00:01.00,0:00:03.50,{x}'' = ?ast" using t e2 by blast
  have a3: "add_ffmpeg_entry 2 3 ''<i> </i>'' [?h] = [?h]" using t e by blast
  have a4: "text' (hd (snd (load_srt (Some srt_example) []))) \<noteq> []" using t m1 by blast
  have a5: "text' (hd (snd (load_ass (Some ass_example) []))) \<noteq> []" using t m2 by blast
  have a6: "text' (hd (add_ffmpeg_entry 0 1 ''a'' [?h])) \<noteq> []"
    using empty_text_never_stored [of _ _ _ "''a''" 0 1 "[?h]"] h3 m3 by blast
  show ?thesis using e a1 a2 a3 a4 a5 a6 by blast
qed

theorem seek_frames_in_range_witness:
  "anim_frame_idx (seek_frames 7 (- 8)
     \<lparr>is_animated = True, anim_frames = [10, 11, 12], anim_frame_idx = 1, anim_elapsed_ms = 0,
      delays = Some [40, 0, 40], last_frame_time = 0\<rparr>) = 2 \<and>
   ((1 + - 8) smod 3 + 3) smod 3 = (2 :: int) \<and>
   seek_frames 7 (- 8)
     \<lparr>is_animated = False, anim_frames = [], anim_frame_idx = 0, anim_elapsed_ms = 0,
      delays = None, last_frame_time = 0\<rparr> =
     \<lparr>is_animated = False, anim_frames = [], anim_frame_idx = 0, anim_elapsed_ms = 0,
      delays = None, last_frame_time = 0\<rparr>"
proof -
  let ?ip = "\<lparr>is_animated = True, anim_frames = [10, 11, 12], anim_frame_idx = 1,
      anim_elapsed_ms = 0, delays = Some [40, 0, 40], last_frame_time = 0\<rparr>"
  let ?iq = "\<lparr>is_animated = False, anim_frames = [], anim_frame_idx = 0, anim_elapsed_ms = 0,
      delays = None, last_frame_time = 0\<rparr>"
  have h: "is_animated ?ip \<and> anim_frames ?ip \<noteq> [] \<and> length (anim_frames ?ip) \<le> 2 ^ 30"
    by simp
  have r: "- (2 ^ 31) \<le> anim_frame_idx ?ip + (- 8) \<and> anim_frame_idx ?ip + (- 8) < 2 ^ 31"
    by simp
  have v: "((1 + - 8) smod 3 + 3) smod 3 = (2 :: int)"
    by (simp add: signed_modulo_int_def)
  have "anim_frame_idx (seek_frames 7 (- 8) ?ip) =
          (anim_frame_idx ?ip + (- 8)) mod int (length (anim_frames ?ip))"
    using seek_frames_in_range [of ?ip 7 "- 8"] h r by blast
  then have a: "anim_frame_idx (seek_frames 7 (- 8) ?ip) = 2" by simp
  have b: "seek_frames 7 (- 8) ?iq = ?iq"
    using seek_frames_in_range [of ?iq 7 "- 8"] by simp
  show ?thesis using a v b by blast
qed

end
